theory Spec2Isabelle
  imports Complex_Main
begin

section \<open>The random walk generator of random\_walk.py\<close>

text \<open>
  The class \<open>random_walk\<close> computes, in its constructor, the coordinates of
  \<open>number_of_walks\<close> random walks of \<open>step_number\<close> steps each. The numpy arrays of the
  source are lists here (a two-dimensional array is a list of rows), numpy's float64 is
  the type \<open>real\<close>, and every exception the code can raise is a value of the type
  \<open>error\<close>. Arithmetic is exact: \<open>np.pi\<close>, \<open>np.cos\<close> and \<open>np.sin\<close> are \<open>\<pi>\<close>, \<open>cos\<close> and
  \<open>sin\<close>, and no operation rounds. What is proved of coordinates is therefore proved up
  to the rounding error of float64; the comparisons of \<open>check_constraints\<close> and the
  control flow do not depend on it.
\<close>

subsection \<open>Errors\<close>

datatype error =
    BadDimensions int
    \<comment> \<open>\<open>ValueError('Dimensions must be in [1, 2, 3], but is ...')\<close> of \<open>calc_next_steps\<close>\<close>
  | BadWallMode string
    \<comment> \<open>\<open>ValueError('wall_mode must either be 'reflect' or 'exclude', ...')\<close>\<close>
  | ConstraintExhausted
    \<comment> \<open>the failed \<open>assert\<close> of the retry loop, 'Maximum number of iterations ...'\<close>
  | UnequalLengths
    \<comment> \<open>the failed \<open>assert\<close> of \<open>check_constraints\<close>, 'Arrays must have equal lengths.'\<close>
  | NumpyError
    \<comment> \<open>an exception raised inside numpy: a start list that does not broadcast to a row,
        an argument \<open>np.random.choice\<close> refuses, a boolean index of the wrong length\<close>

subsection \<open>The constructor's parameters\<close>

text \<open>
  A start coordinate is a single number or a list of numbers; a limit is a list of two
  numbers, \<open>[min, max]\<close>, read by the code as \<open>limits[0]\<close> and \<open>limits[1]\<close>.
\<close>

datatype start = Scalar real | PerWalk "real list"

record config =
  step_number :: nat
  number_of_walks :: nat
  start_x :: start
  start_y :: start
  start_z :: start
  dimensions :: int
  step_length :: real
  angles_xy :: "real list option"
  angles_xz :: "real list option"
  angles_xy_p :: "real list option"
  angles_xz_p :: "real list option"
  x_limits :: "(real \<times> real) option"
  y_limits :: "(real \<times> real) option"
  z_limits :: "(real \<times> real) option"
  constraint_counter :: int
  wall_mode :: string

subsection \<open>The random number generator\<close>

text \<open>
  The global generator of \<open>np.random\<close> is an explicit state: two streams of raw samples,
  integers for \<open>choice\<close> and reals of the unit interval for \<open>uniform\<close>, and the number
  of samples consumed so far. Any sequence of draws the generator can make is the image
  of some such state, so a theorem for all states holds for all runs of the code.
  The weights \<open>p\<close> of \<open>choice\<close> only decide how likely an element is: the model checks
  them as numpy does and then lets the stream pick any element of the list.
\<close>

record rng =
  ints :: "nat \<Rightarrow> nat"
  units :: "nat \<Rightarrow> real"
  pos :: nat

definition random_uniform :: "real \<Rightarrow> real \<Rightarrow> nat \<Rightarrow> rng \<Rightarrow> real list \<times> rng" where
  "random_uniform low high n g =
     (map (\<lambda>k. low + (high - low) * units g (pos g + k)) [0..<n], g\<lparr>pos := pos g + n\<rparr>)"

definition random_choice ::
  "real list \<Rightarrow> nat \<Rightarrow> real list option \<Rightarrow> rng \<Rightarrow> error + real list \<times> rng" where
  "random_choice a n p g =
     (if a = [] \<and> n \<noteq> 0 then Inl NumpyError
      else if (case p of None \<Rightarrow> False
               | Some q \<Rightarrow> length q \<noteq> length a \<or> (\<exists>v \<in> set q. v < 0) \<or> sum_list q \<noteq> 1)
      then Inl NumpyError
      else Inr (map (\<lambda>k. a ! (ints g (pos g + k) mod length a)) [0..<n],
                g\<lparr>pos := pos g + n\<rparr>))"

subsection \<open>calc\_next\_steps\<close>

definition calc_next_steps ::
  "config \<Rightarrow> nat \<Rightarrow> rng \<Rightarrow> error + (real list \<times> real list \<times> real list) \<times> rng" where
  "calc_next_steps self n g =
     (case (if dimensions self = 1 then random_choice [0, pi] n (angles_xy_p self) g
            else if dimensions self = 2 \<or> dimensions self = 3 then
              (case angles_xy self of
                 None \<Rightarrow> Inr (random_uniform 0 (2 * pi) n g)
               | Some a \<Rightarrow> random_choice a n (angles_xy_p self) g)
            else Inl (BadDimensions (dimensions self))) of
        Inl e \<Rightarrow> Inl e
      | Inr (random_walk_angles_xy, g1) \<Rightarrow>
          (case (if dimensions self = 1 \<or> dimensions self = 2
                 then Inr (replicate n (pi / 2), g1)
                 else \<comment> \<open>\<open>dimensions == 3\<close>: every other value has raised above\<close>
                   (case angles_xz self of
                      None \<Rightarrow> Inr (random_uniform 0 (2 * pi) n g1)
                    | Some a \<Rightarrow> random_choice a n (angles_xz_p self) g1)) of
             Inl e \<Rightarrow> Inl e
           | Inr (random_walk_angles_xz, g2) \<Rightarrow>
               Inr ((map2 (\<lambda>t f. cos t * sin f * step_length self)
                       random_walk_angles_xy random_walk_angles_xz,
                     map2 (\<lambda>t f. sin t * sin f * step_length self)
                       random_walk_angles_xy random_walk_angles_xz,
                     map (\<lambda>f. cos f * step_length self) random_walk_angles_xz), g2)))"

subsection \<open>check\_constraints\<close>

definition exceeds :: "real \<times> real \<Rightarrow> real list \<Rightarrow> bool list" where
  \<comment> \<open>\<open>(curr > limits[1]) | (curr < limits[0])\<close>, elementwise\<close>
  "exceeds limits vals = map (\<lambda>v. v > snd limits \<or> v < fst limits) vals"

definition check_constraints ::
  "config \<Rightarrow> real list \<Rightarrow> real list \<Rightarrow> real list \<Rightarrow> error + bool list" where
  "check_constraints self curr_x curr_y curr_z =
     (if \<not> (length curr_x = length curr_y \<and> length curr_y = length curr_z)
      then Inl UnequalLengths
      else
        let v0 = replicate (length curr_x) False;
            v1 = (case x_limits self of None \<Rightarrow> v0
                  | Some l \<Rightarrow> map2 (\<or>) v0 (exceeds l curr_x));
            v2 = (case y_limits self of None \<Rightarrow> v1
                  | Some l \<Rightarrow> map2 (\<or>) v1 (exceeds l curr_y));
            v3 = (case z_limits self of None \<Rightarrow> v2
                  | Some l \<Rightarrow> map2 (\<or>) v2 (exceeds l curr_z))
        in Inr v3)"

subsection \<open>Boolean masks\<close>

text \<open>
  \<open>row[mask]\<close> reads the entries of a row where the mask is true, in order;
  \<open>row[mask] = vals\<close> writes the values, in order, to those entries; \<open>row[mask] += 1\<close>
  increments them. The code always assigns as many values as the mask has true
  entries (\<open>calc_next_steps\<close> is called with \<open>np.sum(mask)\<close>); where the values run
  out, \<open>put_mask\<close> keeps the old entry.
\<close>

fun select :: "'a list \<Rightarrow> bool list \<Rightarrow> 'a list" where
  "select (r # rs) (m # ms) = (if m then r # select rs ms else select rs ms)"
| "select rs ms = []"

fun put_mask :: "'a list \<Rightarrow> bool list \<Rightarrow> 'a list \<Rightarrow> 'a list" where
  "put_mask (r # rs) (m # ms) vs =
     (if m then (case vs of [] \<Rightarrow> r # put_mask rs ms [] | v # vs' \<Rightarrow> v # put_mask rs ms vs')
      else r # put_mask rs ms vs)"
| "put_mask rs ms vs = rs"

definition bump :: "nat list \<Rightarrow> bool list \<Rightarrow> nat list" where
  "bump counter msk = map2 (\<lambda>c m. if m then c + 1 else c) counter msk"

definition count_true :: "bool list \<Rightarrow> nat" where
  \<comment> \<open>\<open>np.sum(mask)\<close>\<close>
  "count_true msk = count_list msk True"

definition any_py :: "bool list \<Rightarrow> bool" where
  "any_py bs = (True \<in> set bs)"

subsection \<open>generate\_walk\_coordinates\<close>

record coords =
  x :: "real list list"
  y :: "real list list"
  z :: "real list list"

definition zeros :: "nat \<Rightarrow> nat \<Rightarrow> real list list" where
  "zeros rows cols = replicate rows (replicate cols 0)"

definition broadcast :: "start \<Rightarrow> nat \<Rightarrow> error + real list" where
  \<comment> \<open>\<open>self.x[0] = self.start_x\<close>: a number fills the row, a list must have the row's
      length, or one element\<close>
  "broadcast s n =
     (case s of
        Scalar v \<Rightarrow> Inr (replicate n v)
      | PerWalk l \<Rightarrow>
          if length l = n then Inr l
          else if length l = 1 then Inr (replicate n (hd l))
          else Inl NumpyError)"

definition add_rows :: "real list \<Rightarrow> real list \<Rightarrow> real list" where
  "add_rows r s = map2 (+) r s"

text \<open>
  One pass through the body of the \<open>while\<close> loop: new steps for the walks of the mask,
  their entries of row \<open>curr_step + 1\<close> recomputed, the constraints checked again, the
  counters of the walks that still violate them incremented, and the \<open>assert\<close>.
\<close>

definition retry ::
  "config \<Rightarrow> nat \<Rightarrow> (coords \<times> rng) \<times> nat list \<times> bool list
     \<Rightarrow> error + (coords \<times> rng) \<times> nat list \<times> bool list" where
  "retry self curr_step st =
     (case st of ((c, g), counter, constraint_violated) \<Rightarrow>
      (case calc_next_steps self (count_true constraint_violated) g of
         Inl e \<Rightarrow> Inl e
       | Inr ((curr_x_step, curr_y_step, curr_z_step), g') \<Rightarrow>
           let c' = c\<lparr>
                 x := (x c)[curr_step + 1 :=
                        put_mask (x c ! (curr_step + 1)) constraint_violated
                          (add_rows (select (x c ! curr_step) constraint_violated) curr_x_step)],
                 y := (y c)[curr_step + 1 :=
                        put_mask (y c ! (curr_step + 1)) constraint_violated
                          (add_rows (select (y c ! curr_step) constraint_violated) curr_y_step)],
                 z := (z c)[curr_step + 1 :=
                        put_mask (z c ! (curr_step + 1)) constraint_violated
                          (add_rows (select (z c ! curr_step) constraint_violated) curr_z_step)]\<rparr>
           in
           (case check_constraints self (x c' ! (curr_step + 1)) (y c' ! (curr_step + 1))
                   (z c' ! (curr_step + 1)) of
              Inl e \<Rightarrow> Inl e
            | Inr violated' \<Rightarrow>
                if length violated' \<noteq> length counter then Inl NumpyError
                else
                  let counter' = bump counter violated' in
                  if any_py (map (\<lambda>k. int k \<ge> constraint_counter self)
                               (select counter' violated'))
                  then Inl ConstraintExhausted
                  else Inr ((c', g'), counter', violated'))))"

definition loop_measure :: "config \<Rightarrow> (coords \<times> rng) \<times> nat list \<times> bool list \<Rightarrow> nat" where
  "loop_measure self st =
     (case st of (cg, counter, constraint_violated) \<Rightarrow>
        if any_py constraint_violated
        then 1 + sum_list (map (\<lambda>k. nat (constraint_counter self - int k)) counter)
        else 0)"

text \<open>
  The \<open>while\<close> loop ends: a pass that returns leaves the mask empty or has incremented
  the counter of a walk whose counter is still below \<open>constraint_counter\<close>.
\<close>

lemma bump_sum:
  "length v = length counter \<Longrightarrow>
   \<forall>k \<in> set (select (bump counter v) v). int k < cc \<Longrightarrow>
   sum_list (map (\<lambda>k. nat (cc - int k)) (bump counter v))
     \<le> sum_list (map (\<lambda>k. nat (cc - int k)) counter) \<and>
   (True \<in> set v \<longrightarrow>
     sum_list (map (\<lambda>k. nat (cc - int k)) (bump counter v))
     < sum_list (map (\<lambda>k. nat (cc - int k)) counter))"
proof (induction v counter rule: list_induct2)
  case Nil
  then show ?case by (simp add: bump_def)
next
  case (Cons m ms k ks)
  then show ?case by (auto simp: bump_def)
qed

lemma retry_Inr:
  assumes "retry self curr_step ((c, g), counter, cv) = Inr ((c', g'), counter', cv')"
  shows "length cv' = length counter" and "counter' = bump counter cv'"
    and "\<forall>k \<in> set (select counter' cv'). int k < constraint_counter self"
  using assms
  by (auto simp: retry_def Let_def any_py_def split: sum.splits prod.splits if_splits)

lemma retry_measure:
  assumes "retry self curr_step st = Inr st'" and "any_py (snd (snd st))"
  shows "loop_measure self st' < loop_measure self st"
proof -
  obtain c g counter cv where st: "st = ((c, g), counter, cv)"
    by (metis prod.collapse)
  obtain c' g' counter' cv' where st': "st' = ((c', g'), counter', cv')"
    by (metis prod.collapse)
  note r = retry_Inr [OF assms(1) [unfolded st st']]
  show ?thesis
  proof (cases "any_py cv'")
    case False
    with assms(2) show ?thesis by (simp add: st st' loop_measure_def)
  next
    case True
    then have "True \<in> set cv'" by (simp add: any_py_def)
    with bump_sum [OF r(1), of "constraint_counter self"] r(2,3)
    have "sum_list (map (\<lambda>k. nat (constraint_counter self - int k)) counter')
          < sum_list (map (\<lambda>k. nat (constraint_counter self - int k)) counter)"
      by simp
    with assms(2) True show ?thesis by (simp add: st st' loop_measure_def)
  qed
qed

function exclude_loop ::
  "config \<Rightarrow> nat \<Rightarrow> (coords \<times> rng) \<times> nat list \<times> bool list \<Rightarrow> error + coords \<times> rng" where
  "exclude_loop self curr_step st =
     (if \<not> any_py (snd (snd st)) then Inr (fst st)
      else (case retry self curr_step st of
              Inl e \<Rightarrow> Inl e
            | Inr st' \<Rightarrow> exclude_loop self curr_step st'))"
  by pat_completeness auto
termination
  by (relation "measure (\<lambda>(self, curr_step, st). loop_measure self st)")
     (auto simp: retry_measure)

declare exclude_loop.simps [simp del]

text \<open>The body of the \<open>for\<close> loop, for one value of \<open>curr_step\<close>.\<close>

definition walk_step :: "config \<Rightarrow> nat \<Rightarrow> coords \<times> rng \<Rightarrow> error + coords \<times> rng" where
  "walk_step self curr_step st =
     (case st of (c, g) \<Rightarrow>
      (case calc_next_steps self (number_of_walks self) g of
         Inl e \<Rightarrow> Inl e
       | Inr ((curr_x_step, curr_y_step, curr_z_step), g') \<Rightarrow>
           let c' = c\<lparr>
                 x := (x c)[curr_step + 1 := add_rows (x c ! curr_step) curr_x_step],
                 y := (y c)[curr_step + 1 := add_rows (y c ! curr_step) curr_y_step],
                 z := (z c)[curr_step + 1 := add_rows (z c ! curr_step) curr_z_step]\<rparr>
           in
           (case check_constraints self (x c' ! (curr_step + 1)) (y c' ! (curr_step + 1))
                   (z c' ! (curr_step + 1)) of
              Inl e \<Rightarrow> Inl e
            | Inr constraint_violated \<Rightarrow>
                if wall_mode self = ''exclude'' then
                  exclude_loop self curr_step
                    ((c', g'), replicate (number_of_walks self) 0, constraint_violated)
                else if wall_mode self = ''reflect'' then Inr (c', g')
                else Inl (BadWallMode (wall_mode self)))))"

fun walk_steps :: "config \<Rightarrow> nat list \<Rightarrow> coords \<times> rng \<Rightarrow> error + coords \<times> rng" where
  "walk_steps self [] st = Inr st"
| "walk_steps self (curr_step # rest) st =
     (case walk_step self curr_step st of
        Inl e \<Rightarrow> Inl e
      | Inr st' \<Rightarrow> walk_steps self rest st')"

definition generate_walk_coordinates :: "config \<Rightarrow> rng \<Rightarrow> error + coords \<times> rng" where
  "generate_walk_coordinates self g =
     (case broadcast (start_x self) (number_of_walks self) of
        Inl e \<Rightarrow> Inl e
      | Inr row_x \<Rightarrow>
     (case broadcast (start_y self) (number_of_walks self) of
        Inl e \<Rightarrow> Inl e
      | Inr row_y \<Rightarrow>
     (case broadcast (start_z self) (number_of_walks self) of
        Inl e \<Rightarrow> Inl e
      | Inr row_z \<Rightarrow>
          walk_steps self [0..<step_number self]
            (\<lparr>x = (zeros (step_number self + 1) (number_of_walks self))[0 := row_x],
              y = (zeros (step_number self + 1) (number_of_walks self))[0 := row_y],
              z = (zeros (step_number self + 1) (number_of_walks self))[0 := row_z]\<rparr>, g))))"

subsection \<open>The constructor\<close>

text \<open>
  \<open>__init__\<close> stores its parameters, the two weight vectors divided by their sums,
  generates the coordinates and computes the two end-to-end distances. The object is
  the record \<open>random_walk\<close>: the coordinates, the stored parameters and the distances.
  A constructor that raises returns no object.
\<close>

definition normalize :: "real list \<Rightarrow> real list" where
  \<comment> \<open>\<open>angles_xy_p/np.sum(angles_xy_p)\<close>\<close>
  "normalize p = map (\<lambda>v. v / sum_list p) p"

definition mean :: "real list \<Rightarrow> real" where
  \<comment> \<open>\<open>np.mean\<close>; of no element it is nan in numpy and 0 here\<close>
  "mean vs = sum_list vs / real (length vs)"

definition sq_diff :: "real list \<Rightarrow> real list \<Rightarrow> real list" where
  \<comment> \<open>\<open>(a - b)**2\<close>, elementwise\<close>
  "sq_diff a b = map2 (\<lambda>u v. (u - v)\<^sup>2) a b"

record random_walk = coords +
  params :: config
  end2end_real :: "real list"
  end2end :: real

definition store_params :: "config \<Rightarrow> config" where
  "store_params args =
     args\<lparr>angles_xy_p := map_option normalize (angles_xy_p args),
          angles_xz_p := map_option normalize (angles_xz_p args)\<rparr>"

definition random_walk_init :: "config \<Rightarrow> rng \<Rightarrow> error + random_walk \<times> rng" where
  "random_walk_init args g =
     (let self = store_params args in
      case generate_walk_coordinates self g of
        Inl e \<Rightarrow> Inl e
      | Inr (c, g') \<Rightarrow>
          Inr (\<lparr>x = x c, y = y c, z = z c, params = self,
                end2end_real =
                  map sqrt (add_rows (add_rows (sq_diff (x c ! 0) (last (x c)))
                                               (sq_diff (y c ! 0) (last (y c))))
                                     (sq_diff (z c ! 0) (last (z c)))),
                end2end =
                  sqrt (mean (sq_diff (x c ! 0) (last (x c)))
                        + mean (sq_diff (y c ! 0) (last (y c)))
                        + mean (sq_diff (z c ! 0) (last (z c))))\<rparr>, g'))"

subsection \<open>The default parameters, and a generator for the examples\<close>

text \<open>
  \<open>default_args\<close> holds the defaults of the parameters of \<open>__init__\<close>. The generator
  \<open>rng0\<close> of the examples draws the integers 0, 1, 2, ... and the real 0; \<open>rng1\<close> draws
  the integers 1, 2, 3, ...; \<open>rng2\<close> draws 0, 0, 0 and then 1.
\<close>

definition default_args :: config where
  "default_args =
     \<lparr>step_number = 100, number_of_walks = 1,
      start_x = Scalar 0, start_y = Scalar 0, start_z = Scalar 0,
      dimensions = 2, step_length = 1,
      angles_xy = None, angles_xz = None, angles_xy_p = None, angles_xz_p = None,
      x_limits = None, y_limits = None, z_limits = None,
      constraint_counter = 1000, wall_mode = ''exclude''\<rparr>"

definition rng0 :: rng where
  "rng0 = \<lparr>ints = (\<lambda>k. k), units = (\<lambda>k. 0), pos = 0\<rparr>"

definition rng1 :: rng where
  "rng1 = \<lparr>ints = (\<lambda>k. Suc k), units = (\<lambda>k. 0), pos = 0\<rparr>"

definition rng2 :: rng where
  "rng2 = \<lparr>ints = (\<lambda>k. if k < 3 then 0 else 1), units = (\<lambda>k. 0), pos = 0\<rparr>"

subsection \<open>The first statements of the two loop bodies\<close>



section \<open>Properties of the sampled steps and of the masks\<close>

definition rank :: "bool list \<Rightarrow> nat \<Rightarrow> nat" where
  "rank msk i = count_true (take i msk)"

definition is_step :: "config \<Rightarrow> real \<Rightarrow> real \<Rightarrow> real \<Rightarrow> bool" where
  "is_step self dx dy dz =
     (\<exists>t f. dx = cos t * sin f * step_length self \<and>
            dy = sin t * sin f * step_length self \<and>
            dz = cos f * step_length self \<and>
            (dimensions self = 1 \<longrightarrow> t = 0 \<or> t = pi) \<and>
            (dimensions self = 1 \<or> dimensions self = 2 \<longrightarrow> f = pi / 2))"

lemma length_put_mask [simp]: "length (put_mask rs ms vs) = length rs"
  by (induction rs ms vs rule: put_mask.induct) (auto split: list.splits)

lemma put_mask_unflagged:
  "i < length rs \<Longrightarrow> \<not> (i < length ms \<and> ms ! i) \<Longrightarrow> put_mask rs ms vs ! i = rs ! i"
proof (induction rs ms vs arbitrary: i rule: put_mask.induct)
  case (1 r rs m ms vs)
  then show ?case by (cases i) (auto split: list.splits)
qed simp_all

lemma length_select: "length rs = length ms \<Longrightarrow> length (select rs ms) = count_true ms"
  by (induction rs ms rule: list_induct2) (auto simp: count_true_def)

lemma rank_less:
  "i < length ms \<Longrightarrow> ms ! i \<Longrightarrow> rank ms i < count_true ms"
proof (induction ms arbitrary: i)
  case Nil
  then show ?case by simp
next
  case (Cons m ms)
  then show ?case by (cases i) (auto simp: rank_def count_true_def)
qed

lemma put_mask_flagged:
  "length rs = length ms \<Longrightarrow> length ps = length ms \<Longrightarrow> length ds = count_true ms \<Longrightarrow>
   i < length ms \<Longrightarrow> ms ! i \<Longrightarrow>
   put_mask rs ms (add_rows (select ps ms) ds) ! i = ps ! i + ds ! rank ms i"
proof (induction ms arbitrary: rs ps ds i)
  case Nil
  then show ?case by simp
next
  case (Cons m ms)
  obtain r rs' where rs: "rs = r # rs'" using Cons.prems(1) by (cases rs) auto
  obtain p ps' where ps: "ps = p # ps'" using Cons.prems(2) by (cases ps) auto
  show ?case
  proof (cases m)
    case True
    then obtain d ds' where ds: "ds = d # ds'"
      using Cons.prems(3) by (cases ds) (auto simp: count_true_def)
    show ?thesis
    proof (cases i)
      case 0
      then show ?thesis using True by (simp add: rs ps ds add_rows_def rank_def count_true_def)
    next
      case (Suc j)
      have "put_mask rs' ms (add_rows (select ps' ms) ds') ! j = ps' ! j + ds' ! rank ms j"
        using Cons.prems Suc True by (intro Cons.IH) (auto simp: rs ps ds count_true_def)
      then show ?thesis using True Suc
        by (simp add: rs ps ds add_rows_def rank_def count_true_def)
    qed
  next
    case False
    show ?thesis
    proof (cases i)
      case 0
      then show ?thesis using False Cons.prems by simp
    next
      case (Suc j)
      have "put_mask rs' ms (add_rows (select ps' ms) ds) ! j = ps' ! j + ds ! rank ms j"
        using Cons.prems Suc False by (intro Cons.IH) (auto simp: rs ps count_true_def)
      then show ?thesis using False Suc
        by (simp add: rs ps add_rows_def rank_def count_true_def)
    qed
  qed
qed

lemma random_choice_Inr:
  "random_choice a n p g = Inr (l, g') \<Longrightarrow> length l = n \<and> (\<forall>k<n. l ! k \<in> set a)"
  by (auto simp: random_choice_def split: if_splits)

lemma random_uniform_length: "random_uniform lo hi n g = (l, g') \<Longrightarrow> length l = n"
  by (auto simp: random_uniform_def)

lemma calc_next_steps_Inr:
  assumes "calc_next_steps self n g = Inr ((sx, sy, sz), g')"
  shows "length sx = n" and "length sy = n" and "length sz = n"
    and "\<forall>k<n. is_step self (sx ! k) (sy ! k) (sz ! k)"
proof -
  from assms obtain txy g1 txz where
    xy: "(if dimensions self = 1 then random_choice [0, pi] n (angles_xy_p self) g
          else if dimensions self = 2 \<or> dimensions self = 3 then
            (case angles_xy self of
               None \<Rightarrow> Inr (random_uniform 0 (2 * pi) n g)
             | Some a \<Rightarrow> random_choice a n (angles_xy_p self) g)
          else Inl (BadDimensions (dimensions self))) = Inr (txy, g1)"
    and xz: "(if dimensions self = 1 \<or> dimensions self = 2
              then Inr (replicate n (pi / 2), g1)
              else (case angles_xz self of
                      None \<Rightarrow> Inr (random_uniform 0 (2 * pi) n g1)
                    | Some a \<Rightarrow> random_choice a n (angles_xz_p self) g1)) = Inr (txz, g')"
    and sx: "sx = map2 (\<lambda>t f. cos t * sin f * step_length self) txy txz"
    and sy: "sy = map2 (\<lambda>t f. sin t * sin f * step_length self) txy txz"
    and sz: "sz = map (\<lambda>f. cos f * step_length self) txz"
    by (auto simp: calc_next_steps_def split: sum.splits prod.splits)
  have lxy: "length txy = n"
    using xy by (auto split: if_splits option.splits dest: random_choice_Inr random_uniform_length)
  have lxz: "length txz = n"
    using xz by (auto split: if_splits option.splits dest: random_choice_Inr random_uniform_length)
  show "length sx = n" "length sy = n" "length sz = n"
    by (simp_all add: sx sy sz lxy lxz)
  have d1: "dimensions self = 1 \<Longrightarrow> k < n \<Longrightarrow> txy ! k = 0 \<or> txy ! k = pi" for k
    using xy random_choice_Inr [of "[0, pi]" n "angles_xy_p self" g txy g1] by auto
  have d2: "dimensions self = 1 \<or> dimensions self = 2 \<Longrightarrow> k < n \<Longrightarrow> txz ! k = pi / 2" for k
    using xz by auto
  show "\<forall>k<n. is_step self (sx ! k) (sy ! k) (sz ! k)"
  proof (intro allI impI)
    fix k assume k: "k < n"
    show "is_step self (sx ! k) (sy ! k) (sz ! k)"
      unfolding is_step_def
      apply (rule exI [of _ "txy ! k"], rule exI [of _ "txz ! k"])
      using k d1 [of k] d2 [of k] by (simp add: sx sy sz lxy lxz)
  qed
qed

lemma is_step_length: "is_step self dx dy dz \<Longrightarrow> dx\<^sup>2 + dy\<^sup>2 + dz\<^sup>2 = (step_length self)\<^sup>2"
proof -
  assume "is_step self dx dy dz"
  then obtain t f where *: "dx = cos t * sin f * step_length self"
    "dy = sin t * sin f * step_length self" "dz = cos f * step_length self"
    by (auto simp: is_step_def)
  have e1: "(cos t)\<^sup>2 = 1 - (sin t)\<^sup>2" and e2: "(cos f)\<^sup>2 = 1 - (sin f)\<^sup>2"
    by (simp_all add: cos_squared_eq)
  show ?thesis
    by (simp add: * e1 e2 algebra_simps)
qed

lemma is_step_dim1: 
  assumes "is_step self dx dy dz" and "dimensions self = 1" 
  shows "dy = 0" and "dz = 0"
proof -
  from assms obtain t f where *: "dy = sin t * sin f * step_length self"
    "dz = cos f * step_length self" "t = 0 \<or> t = pi" "f = pi / 2"
    unfolding is_step_def by blast
  from *(3) have "sin t = 0" by auto
  then show "dy = 0" by (simp add: *(1))
  show "dz = 0" unfolding *(2) *(4) by simp
qed

lemma is_step_dim2:
  assumes "is_step self dx dy dz" and "dimensions self = 2" 
  shows "dz = 0"
proof -
  from assms obtain f where *: "dz = cos f * step_length self" "f = pi / 2"
    unfolding is_step_def by blast
  show "dz = 0" unfolding *(1) *(2) by simp
qed


definition outside :: "(real \<times> real) option \<Rightarrow> real \<Rightarrow> bool" where
  "outside limits v = (case limits of None \<Rightarrow> False | Some l \<Rightarrow> v > snd l \<or> v < fst l)"

definition violates :: "config \<Rightarrow> real \<Rightarrow> real \<Rightarrow> real \<Rightarrow> bool" where
  "violates self a b c =
     (outside (x_limits self) a \<or> outside (y_limits self) b \<or> outside (z_limits self) c)"

definition well_shaped :: "nat \<Rightarrow> nat \<Rightarrow> coords \<Rightarrow> bool" where
  "well_shaped n rows c =
     (length (x c) = rows \<and> length (y c) = rows \<and> length (z c) = rows \<and>
      (\<forall>r<rows. length (x c ! r) = n \<and> length (y c ! r) = n \<and> length (z c ! r) = n))"

lemma check_constraints_Inr:
  assumes "check_constraints self cx cy cz = Inr v"
  shows "length cx = length cy" and "length cy = length cz" and "length v = length cx"
    and "\<forall>i<length cx. v ! i = violates self (cx ! i) (cy ! i) (cz ! i)"
  using assms
  by (auto simp: check_constraints_def Let_def exceeds_def violates_def outside_def
           split: if_splits option.splits)

lemma check_constraints_total:
  "length cx = length cy \<Longrightarrow> length cy = length cz \<Longrightarrow>
   \<exists>v. check_constraints self cx cy cz = Inr v"
  by (simp add: check_constraints_def Let_def)

lemma retry_elim:
  assumes "retry self s ((c, g), counter, cv) = Inr ((c', g'), counter', cv')"
  obtains sx sy sz where
    "calc_next_steps self (count_true cv) g = Inr ((sx, sy, sz), g')"
    "x c' = (x c)[Suc s := put_mask (x c ! (Suc s)) cv (add_rows (select (x c ! s) cv) sx)]"
    "y c' = (y c)[Suc s := put_mask (y c ! (Suc s)) cv (add_rows (select (y c ! s) cv) sy)]"
    "z c' = (z c)[Suc s := put_mask (z c ! (Suc s)) cv (add_rows (select (z c ! s) cv) sz)]"
    "check_constraints self (x c' ! (Suc s)) (y c' ! (Suc s)) (z c' ! (Suc s)) = Inr cv'"
  using assms
  by (auto simp: retry_def Let_def split: sum.splits prod.splits if_splits)

section \<open>One pass of the retry loop, the loop, one step\<close>

lemma retry_effect:
  assumes r: "retry self s ((c, g), counter, cv) = Inr ((c', g'), counter', cv')"
    and ws: "well_shaped n rows c" and s: "Suc s < rows" and lcv: "length cv = n"
  shows "well_shaped n rows c'"
    and "\<forall>r<rows. r \<noteq> Suc s \<longrightarrow> x c' ! r = x c ! r \<and> y c' ! r = y c ! r \<and> z c' ! r = z c ! r"
    and "\<forall>i<n. \<not> cv ! i \<longrightarrow> x c' ! (Suc s) ! i = x c ! (Suc s) ! i \<and>
           y c' ! (Suc s) ! i = y c ! (Suc s) ! i \<and> z c' ! (Suc s) ! i = z c ! (Suc s) ! i"
    and "\<forall>i<n. cv ! i \<longrightarrow> (\<exists>dx dy dz. is_step self dx dy dz \<and>
           x c' ! (Suc s) ! i = x c ! s ! i + dx \<and>
           y c' ! (Suc s) ! i = y c ! s ! i + dy \<and>
           z c' ! (Suc s) ! i = z c ! s ! i + dz)"
    and "check_constraints self (x c' ! (Suc s)) (y c' ! (Suc s)) (z c' ! (Suc s)) = Inr cv'"
    and "length cv' = n"
proof -
  from r obtain sx sy sz where
    calc: "calc_next_steps self (count_true cv) g = Inr ((sx, sy, sz), g')"
    and xc: "x c' = (x c)[Suc s := put_mask (x c ! (Suc s)) cv (add_rows (select (x c ! s) cv) sx)]"
    and yc: "y c' = (y c)[Suc s := put_mask (y c ! (Suc s)) cv (add_rows (select (y c ! s) cv) sy)]"
    and zc: "z c' = (z c)[Suc s := put_mask (z c ! (Suc s)) cv (add_rows (select (z c ! s) cv) sz)]"
    and chk: "check_constraints self (x c' ! (Suc s)) (y c' ! (Suc s)) (z c' ! (Suc s)) = Inr cv'"
    by (rule retry_elim)
  note cs = calc_next_steps_Inr [OF calc]
  from ws have len: "length (x c) = rows" "length (y c) = rows" "length (z c) = rows"
    and rowlen: "\<And>r. r < rows \<Longrightarrow> length (x c ! r) = n \<and> length (y c ! r) = n \<and> length (z c ! r) = n"
    by (auto simp: well_shaped_def)
  from s have s0: "s < rows" by simp
  show w': "well_shaped n rows c'"
    using len rowlen s by (auto simp: well_shaped_def xc yc zc nth_list_update)
  show "\<forall>r<rows. r \<noteq> Suc s \<longrightarrow> x c' ! r = x c ! r \<and> y c' ! r = y c ! r \<and> z c' ! r = z c ! r"
    by (simp add: xc yc zc)
  have x1: "x c' ! (Suc s) = put_mask (x c ! (Suc s)) cv (add_rows (select (x c ! s) cv) sx)"
    and y1: "y c' ! (Suc s) = put_mask (y c ! (Suc s)) cv (add_rows (select (y c ! s) cv) sy)"
    and z1: "z c' ! (Suc s) = put_mask (z c ! (Suc s)) cv (add_rows (select (z c ! s) cv) sz)"
    using len s by (simp_all add: xc yc zc)
  show "\<forall>i<n. \<not> cv ! i \<longrightarrow> x c' ! (Suc s) ! i = x c ! (Suc s) ! i \<and>
           y c' ! (Suc s) ! i = y c ! (Suc s) ! i \<and> z c' ! (Suc s) ! i = z c ! (Suc s) ! i"
    using rowlen [OF s] by (simp add: x1 y1 z1 put_mask_unflagged)
  show "\<forall>i<n. cv ! i \<longrightarrow> (\<exists>dx dy dz. is_step self dx dy dz \<and>
           x c' ! (Suc s) ! i = x c ! s ! i + dx \<and>
           y c' ! (Suc s) ! i = y c ! s ! i + dy \<and>
           z c' ! (Suc s) ! i = z c ! s ! i + dz)"
  proof (intro allI impI)
    fix i assume i: "i < n" and f: "cv ! i"
    have k: "rank cv i < count_true cv" using i f lcv by (simp add: rank_less)
    have st: "is_step self (sx ! rank cv i) (sy ! rank cv i) (sz ! rank cv i)"
      using cs(4) k by blast
    have "x c' ! (Suc s) ! i = x c ! s ! i + sx ! rank cv i"
      unfolding x1 using rowlen [OF s] rowlen [OF s0] lcv cs(1) i f
      by (intro put_mask_flagged) simp_all
    moreover have "y c' ! (Suc s) ! i = y c ! s ! i + sy ! rank cv i"
      unfolding y1 using rowlen [OF s] rowlen [OF s0] lcv cs(2) i f
      by (intro put_mask_flagged) simp_all
    moreover have "z c' ! (Suc s) ! i = z c ! s ! i + sz ! rank cv i"
      unfolding z1 using rowlen [OF s] rowlen [OF s0] lcv cs(3) i f
      by (intro put_mask_flagged) simp_all
    ultimately show "\<exists>dx dy dz. is_step self dx dy dz \<and>
           x c' ! (Suc s) ! i = x c ! s ! i + dx \<and>
           y c' ! (Suc s) ! i = y c ! s ! i + dy \<and>
           z c' ! (Suc s) ! i = z c ! s ! i + dz"
      using st by blast
  qed
  show "check_constraints self (x c' ! (Suc s)) (y c' ! (Suc s)) (z c' ! (Suc s)) = Inr cv'"
    by (rule chk)
  show "length cv' = n"
    using check_constraints_Inr(3) [OF chk] w' s by (simp add: well_shaped_def)
qed

lemma exclude_loop_done:
  "\<not> any_py (snd (snd st)) \<Longrightarrow> exclude_loop self curr_step st = Inr (fst st)"
  by (simp add: exclude_loop.simps)

lemma exclude_loop_again:
  "any_py (snd (snd st)) \<Longrightarrow> exclude_loop self curr_step st =
     (case retry self curr_step st of Inl e \<Rightarrow> Inl e | Inr st' \<Rightarrow> exclude_loop self curr_step st')"
  by (subst exclude_loop.simps) simp

lemma exclude_loop_rule:
  assumes "exclude_loop self s st = Inr res" and "P st"
    and "\<And>a b. P a \<Longrightarrow> any_py (snd (snd a)) \<Longrightarrow> retry self s a = Inr b \<Longrightarrow> P b"
  shows "\<exists>counter cv. P (res, counter, cv) \<and> \<not> any_py cv"
  using assms
proof (induction self s st rule: exclude_loop.induct)
  case (1 self s st)
  show ?case
  proof (cases "any_py (snd (snd st))")
    case False
    then have "res = fst st" using "1.prems"(1) by (simp add: exclude_loop_done)
    then have "st = (res, fst (snd st), snd (snd st))" by simp
    then show ?thesis using False "1.prems"(2) by metis
  next
    case True
    then obtain b where b: "retry self s st = Inr b" and e: "exclude_loop self s b = Inr res"
      using "1.prems"(1) by (auto simp: exclude_loop_again split: sum.splits)
    show ?thesis
      using "1.IH" [OF _ b e] True "1.prems"(3) [OF "1.prems"(2) True b] "1.prems"(3) by simp
  qed
qed

definition stepped :: "config \<Rightarrow> nat \<Rightarrow> nat \<Rightarrow> coords \<Rightarrow> coords \<Rightarrow> bool" where
  "stepped self n s c c' =
     (\<forall>i<n. \<exists>dx dy dz. is_step self dx dy dz \<and>
        x c' ! Suc s ! i = x c ! s ! i + dx \<and>
        y c' ! Suc s ! i = y c ! s ! i + dy \<and>
        z c' ! Suc s ! i = z c ! s ! i + dz)"

definition same_rows :: "nat \<Rightarrow> nat \<Rightarrow> coords \<Rightarrow> coords \<Rightarrow> bool" where
  "same_rows rows s c c' =
     (\<forall>r<rows. r \<noteq> Suc s \<longrightarrow> x c' ! r = x c ! r \<and> y c' ! r = y c ! r \<and> z c' ! r = z c ! r)"

definition loop_inv ::
  "config \<Rightarrow> nat \<Rightarrow> nat \<Rightarrow> nat \<Rightarrow> coords \<Rightarrow> (coords \<times> rng) \<times> nat list \<times> bool list \<Rightarrow> bool" where
  "loop_inv self n rows s c a =
     (well_shaped n rows (fst (fst a)) \<and> length (snd (snd a)) = n \<and>
      same_rows rows s c (fst (fst a)) \<and> stepped self n s c (fst (fst a)) \<and>
      check_constraints self (x (fst (fst a)) ! Suc s) (y (fst (fst a)) ! Suc s)
        (z (fst (fst a)) ! Suc s) = Inr (snd (snd a)))"

lemma loop_inv_retry:
  assumes inv: "loop_inv self n rows s c a" and r: "retry self s a = Inr b" and s: "Suc s < rows"
  shows "loop_inv self n rows s c b"
proof -
  obtain ca ga cnt cva where a: "a = ((ca, ga), cnt, cva)" by (metis prod.collapse)
  obtain cb gb cnt' cvb where b: "b = ((cb, gb), cnt', cvb)" by (metis prod.collapse)
  from inv have ws: "well_shaped n rows ca" and l: "length cva = n"
    and sr: "same_rows rows s c ca" and sp: "stepped self n s c ca"
    by (simp_all add: loop_inv_def a)
  note e = retry_effect [OF r [unfolded a b] ws s l]
  have s0: "s < rows" using s by simp
  have sr': "same_rows rows s c cb"
    using sr e(2) by (simp add: same_rows_def)
  have rs: "x ca ! s = x c ! s" "y ca ! s = y c ! s" "z ca ! s = z c ! s"
    using sr s0 by (simp_all add: same_rows_def)
  have "stepped self n s c cb"
    unfolding stepped_def
  proof (intro allI impI)
    fix i assume i: "i < n"
    show "\<exists>dx dy dz. is_step self dx dy dz \<and> x cb ! Suc s ! i = x c ! s ! i + dx \<and>
            y cb ! Suc s ! i = y c ! s ! i + dy \<and> z cb ! Suc s ! i = z c ! s ! i + dz"
    proof (cases "cva ! i")
      case True
      then show ?thesis using e(4) i rs by simp
    next
      case False
      then have "x cb ! Suc s ! i = x ca ! Suc s ! i \<and> y cb ! Suc s ! i = y ca ! Suc s ! i
                 \<and> z cb ! Suc s ! i = z ca ! Suc s ! i"
        using e(3) i by blast
      then show ?thesis using sp i by (simp add: stepped_def)
    qed
  qed
  then show ?thesis
    using e(1,5,6) sr' by (simp add: loop_inv_def b)
qed

lemma walk_step_elim:
  assumes "walk_step self s (c, g) = Inr (c', g')"
  obtains sx sy sz g1 cv where
    "calc_next_steps self (number_of_walks self) g = Inr ((sx, sy, sz), g1)"
    "check_constraints self
       (x (c\<lparr>x := (x c)[Suc s := add_rows (x c ! s) sx],
             y := (y c)[Suc s := add_rows (y c ! s) sy],
             z := (z c)[Suc s := add_rows (z c ! s) sz]\<rparr>) ! Suc s)
       (y (c\<lparr>x := (x c)[Suc s := add_rows (x c ! s) sx],
             y := (y c)[Suc s := add_rows (y c ! s) sy],
             z := (z c)[Suc s := add_rows (z c ! s) sz]\<rparr>) ! Suc s)
       (z (c\<lparr>x := (x c)[Suc s := add_rows (x c ! s) sx],
             y := (y c)[Suc s := add_rows (y c ! s) sy],
             z := (z c)[Suc s := add_rows (z c ! s) sz]\<rparr>) ! Suc s) = Inr cv"
    "wall_mode self = ''exclude'' \<and>
       exclude_loop self s
         ((c\<lparr>x := (x c)[Suc s := add_rows (x c ! s) sx],
             y := (y c)[Suc s := add_rows (y c ! s) sy],
             z := (z c)[Suc s := add_rows (z c ! s) sz]\<rparr>, g1),
          replicate (number_of_walks self) 0, cv) = Inr (c', g')
     \<or> wall_mode self = ''reflect'' \<and>
       c' = c\<lparr>x := (x c)[Suc s := add_rows (x c ! s) sx],
              y := (y c)[Suc s := add_rows (y c ! s) sy],
              z := (z c)[Suc s := add_rows (z c ! s) sz]\<rparr> \<and> g' = g1"
  using assms
  by (auto simp: walk_step_def Let_def split: sum.splits prod.splits if_splits)

lemma walk_step_effect:
  assumes w: "walk_step self s (c, g) = Inr (c', g')"
    and ws: "well_shaped (number_of_walks self) rows c" and s: "Suc s < rows"
  shows "well_shaped (number_of_walks self) rows c'"
    and "same_rows rows s c c'"
    and "stepped self (number_of_walks self) s c c'"
    and "wall_mode self = ''exclude'' \<Longrightarrow> \<forall>i<number_of_walks self.
           \<not> violates self (x c' ! Suc s ! i) (y c' ! Suc s ! i) (z c' ! Suc s ! i)"
proof -
  let ?n = "number_of_walks self"
  from w obtain sx sy sz g1 cv where
    calc: "calc_next_steps self ?n g = Inr ((sx, sy, sz), g1)"
    and chk0: "check_constraints self
       (x (c\<lparr>x := (x c)[Suc s := add_rows (x c ! s) sx],
             y := (y c)[Suc s := add_rows (y c ! s) sy],
             z := (z c)[Suc s := add_rows (z c ! s) sz]\<rparr>) ! Suc s)
       (y (c\<lparr>x := (x c)[Suc s := add_rows (x c ! s) sx],
             y := (y c)[Suc s := add_rows (y c ! s) sy],
             z := (z c)[Suc s := add_rows (z c ! s) sz]\<rparr>) ! Suc s)
       (z (c\<lparr>x := (x c)[Suc s := add_rows (x c ! s) sx],
             y := (y c)[Suc s := add_rows (y c ! s) sy],
             z := (z c)[Suc s := add_rows (z c ! s) sz]\<rparr>) ! Suc s) = Inr cv"
    and mode0: "wall_mode self = ''exclude'' \<and>
       exclude_loop self s
         ((c\<lparr>x := (x c)[Suc s := add_rows (x c ! s) sx],
             y := (y c)[Suc s := add_rows (y c ! s) sy],
             z := (z c)[Suc s := add_rows (z c ! s) sz]\<rparr>, g1),
          replicate ?n 0, cv) = Inr (c', g')
     \<or> wall_mode self = ''reflect'' \<and>
       c' = c\<lparr>x := (x c)[Suc s := add_rows (x c ! s) sx],
              y := (y c)[Suc s := add_rows (y c ! s) sy],
              z := (z c)[Suc s := add_rows (z c ! s) sz]\<rparr> \<and> g' = g1"
    by (rule walk_step_elim)
  define c1 where "c1 = c\<lparr>x := (x c)[Suc s := add_rows (x c ! s) sx],
             y := (y c)[Suc s := add_rows (y c ! s) sy],
             z := (z c)[Suc s := add_rows (z c ! s) sz]\<rparr>"
  have xc: "x c1 = (x c)[Suc s := add_rows (x c ! s) sx]"
    and yc: "y c1 = (y c)[Suc s := add_rows (y c ! s) sy]"
    and zc: "z c1 = (z c)[Suc s := add_rows (z c ! s) sz]"
    by (simp_all add: c1_def)
  have chk: "check_constraints self (x c1 ! Suc s) (y c1 ! Suc s) (z c1 ! Suc s) = Inr cv"
    using chk0 unfolding c1_def .
  have mode: "wall_mode self = ''exclude'' \<and>
       exclude_loop self s ((c1, g1), replicate ?n 0, cv) = Inr (c', g')
     \<or> wall_mode self = ''reflect'' \<and> c' = c1 \<and> g' = g1"
    using mode0 unfolding c1_def .
  note cs = calc_next_steps_Inr [OF calc]
  from ws have len: "length (x c) = rows" "length (y c) = rows" "length (z c) = rows"
    and rowlen: "\<And>r. r < rows \<Longrightarrow> length (x c ! r) = ?n \<and> length (y c ! r) = ?n \<and> length (z c ! r) = ?n"
    by (auto simp: well_shaped_def)
  from s have s0: "s < rows" by simp
  have w1: "well_shaped ?n rows c1"
    using len rowlen s cs(1-3) by (auto simp: well_shaped_def xc yc zc nth_list_update add_rows_def)
  have sr1: "same_rows rows s c c1"
    by (simp add: same_rows_def xc yc zc)
  have st1: "stepped self ?n s c c1"
    unfolding stepped_def
  proof (intro allI impI)
    fix i assume i: "i < ?n"
    have "x c1 ! Suc s ! i = x c ! s ! i + sx ! i" "y c1 ! Suc s ! i = y c ! s ! i + sy ! i"
      "z c1 ! Suc s ! i = z c ! s ! i + sz ! i"
      using len s rowlen [OF s0] cs(1-3) i by (simp_all add: xc yc zc add_rows_def)
    then show "\<exists>dx dy dz. is_step self dx dy dz \<and> x c1 ! Suc s ! i = x c ! s ! i + dx \<and>
            y c1 ! Suc s ! i = y c ! s ! i + dy \<and> z c1 ! Suc s ! i = z c ! s ! i + dz"
      using cs(4) i by blast
  qed
  have lcv: "length cv = ?n"
    using check_constraints_Inr(3) [OF chk] w1 s by (simp add: well_shaped_def)
  have inv1: "loop_inv self ?n rows s c ((c1, g1), replicate ?n 0, cv)"
    using w1 sr1 st1 chk lcv by (simp add: loop_inv_def)
  from mode have fin: "well_shaped ?n rows c' \<and> same_rows rows s c c' \<and> stepped self ?n s c c' \<and>
      (wall_mode self = ''exclude'' \<longrightarrow> (\<exists>cvf. \<not> any_py cvf \<and>
         check_constraints self (x c' ! Suc s) (y c' ! Suc s) (z c' ! Suc s) = Inr cvf))"
  proof
    assume m: "wall_mode self = ''exclude'' \<and>
       exclude_loop self s ((c1, g1), replicate ?n 0, cv) = Inr (c', g')"
    have "\<exists>counter cvf. loop_inv self ?n rows s c ((c', g'), counter, cvf) \<and> \<not> any_py cvf"
      using m inv1 loop_inv_retry [OF _ _ s]
      by (intro exclude_loop_rule [where P = "loop_inv self ?n rows s c" and st = "((c1, g1), replicate ?n 0, cv)"]) auto
    then show ?thesis by (auto simp: loop_inv_def)
  next
    assume "wall_mode self = ''reflect'' \<and> c' = c1 \<and> g' = g1"
    then show ?thesis using w1 sr1 st1 by simp
  qed
  then show "well_shaped ?n rows c'" "same_rows rows s c c'" "stepped self ?n s c c'"
    by simp_all
  show "\<forall>i<?n. \<not> violates self (x c' ! Suc s ! i) (y c' ! Suc s ! i) (z c' ! Suc s ! i)"
    if "wall_mode self = ''exclude''"
  proof -
    from fin that obtain cvf where n: "\<not> any_py cvf"
      and c: "check_constraints self (x c' ! Suc s) (y c' ! Suc s) (z c' ! Suc s) = Inr cvf"
      by blast
    have lx: "length (x c' ! Suc s) = ?n" using fin s by (simp add: well_shaped_def)
    note k = check_constraints_Inr [OF c]
    show ?thesis
    proof (intro allI impI)
      fix i assume i: "i < ?n"
      then have "cvf ! i \<in> set cvf" using k(3) lx by simp
      then have "\<not> cvf ! i" using n by (auto simp: any_py_def)
      then show "\<not> violates self (x c' ! Suc s ! i) (y c' ! Suc s ! i) (z c' ! Suc s ! i)"
        using k(4) i lx by simp
    qed
  qed
qed

section \<open>Invariants of the whole generation\<close>

lemma walk_steps_rule:
  assumes "walk_steps self [a..<b] st = Inr st'" and "I a st"
    and "\<And>k s t. a \<le> k \<Longrightarrow> k < b \<Longrightarrow> I k s \<Longrightarrow> walk_step self k s = Inr t \<Longrightarrow> I (Suc k) t"
    and "a \<le> b"
  shows "I b st'"
  using assms
proof (induction "b - a" arbitrary: a st)
  case 0
  then show ?case by simp
next
  case (Suc d)
  then have lt: "a < b" by simp
  then have upt: "[a..<b] = a # [Suc a..<b]" by (rule upt_conv_Cons)
  from Suc.prems(1) obtain t where t: "walk_step self a st = Inr t"
    and rest: "walk_steps self [Suc a..<b] t = Inr st'"
    by (auto simp: upt split: sum.splits)
  have "I (Suc a) t" using Suc.prems(3) [OF _ lt Suc.prems(2) t] by simp
  moreover have "d = b - Suc a" using Suc.hyps(2) by simp
  ultimately show ?case
    using Suc.hyps(1) [of "Suc a" t] rest Suc.prems(3) lt by simp
qed

lemma broadcast_length: "broadcast s n = Inr r \<Longrightarrow> length r = n"
  by (auto simp: broadcast_def split: start.splits if_splits)

lemma generate_elim:
  assumes "generate_walk_coordinates self g = Inr (c, g')"
  obtains rx ry rz where
    "broadcast (start_x self) (number_of_walks self) = Inr rx"
    "broadcast (start_y self) (number_of_walks self) = Inr ry"
    "broadcast (start_z self) (number_of_walks self) = Inr rz"
    "walk_steps self [0..<step_number self]
       (\<lparr>x = (zeros (step_number self + 1) (number_of_walks self))[0 := rx],
         y = (zeros (step_number self + 1) (number_of_walks self))[0 := ry],
         z = (zeros (step_number self + 1) (number_of_walks self))[0 := rz]\<rparr>, g) = Inr (c, g')"
  using assms
  by (auto simp: generate_walk_coordinates_def split: sum.splits)

lemma generate_invariant:
  assumes gen: "generate_walk_coordinates self g = Inr (c, g')"
    and init: "\<And>c0. well_shaped (number_of_walks self) (Suc (step_number self)) c0 \<Longrightarrow>
        broadcast (start_x self) (number_of_walks self) = Inr (x c0 ! 0) \<Longrightarrow>
        broadcast (start_y self) (number_of_walks self) = Inr (y c0 ! 0) \<Longrightarrow>
        broadcast (start_z self) (number_of_walks self) = Inr (z c0 ! 0) \<Longrightarrow> Q 0 c0"
    and step: "\<And>k c1 c2. k < step_number self \<Longrightarrow>
        well_shaped (number_of_walks self) (Suc (step_number self)) c1 \<Longrightarrow> Q k c1 \<Longrightarrow>
        well_shaped (number_of_walks self) (Suc (step_number self)) c2 \<Longrightarrow>
        same_rows (Suc (step_number self)) k c1 c2 \<Longrightarrow>
        stepped self (number_of_walks self) k c1 c2 \<Longrightarrow>
        (wall_mode self = ''exclude'' \<longrightarrow> (\<forall>i<number_of_walks self.
           \<not> violates self (x c2 ! Suc k ! i) (y c2 ! Suc k ! i) (z c2 ! Suc k ! i))) \<Longrightarrow>
        Q (Suc k) c2"
  shows "well_shaped (number_of_walks self) (Suc (step_number self)) c \<and> Q (step_number self) c"
proof -
  let ?n = "number_of_walks self" and ?N = "step_number self"
  from gen obtain rx ry rz where
    b1: "broadcast (start_x self) ?n = Inr rx"
    and b2: "broadcast (start_y self) ?n = Inr ry"
    and b3: "broadcast (start_z self) ?n = Inr rz"
    and ws: "walk_steps self [0..<?N]
       (\<lparr>x = (zeros (?N + 1) ?n)[0 := rx], y = (zeros (?N + 1) ?n)[0 := ry],
         z = (zeros (?N + 1) ?n)[0 := rz]\<rparr>, g) = Inr (c, g')"
    by (rule generate_elim)
  let ?c0 = "\<lparr>x = (zeros (?N + 1) ?n)[0 := rx], y = (zeros (?N + 1) ?n)[0 := ry],
         z = (zeros (?N + 1) ?n)[0 := rz]\<rparr>"
  let ?I = "\<lambda>k st. well_shaped ?n (Suc ?N) (fst st) \<and> Q k (fst st)"
  have w0: "well_shaped ?n (Suc ?N) ?c0"
    using broadcast_length [OF b1] broadcast_length [OF b2] broadcast_length [OF b3]
    by (auto simp: well_shaped_def zeros_def nth_list_update nth_Cons split: nat.splits)
  have "?I ?N (c, g')"
  proof (rule walk_steps_rule [where I = ?I, OF ws])
    have "x ?c0 ! 0 = rx" "y ?c0 ! 0 = ry" "z ?c0 ! 0 = rz"
      by (simp_all add: zeros_def)
    then show "?I 0 (?c0, g)" using w0 init [of ?c0] b1 b2 b3 by simp
  next
    fix k s t
    assume k: "k < ?N" and I: "?I k s" and w: "walk_step self k s = Inr t"
    obtain c1 g1 where s: "s = (c1, g1)" by (cases s)
    obtain c2 g2 where t: "t = (c2, g2)" by (cases t)
    from I have w1: "well_shaped ?n (Suc ?N) c1" and q: "Q k c1" by (simp_all add: s)
    have sk: "Suc k < Suc ?N" using k by simp
    note e = walk_step_effect [OF w [unfolded s t] w1 sk]
    show "?I (Suc k) t"
      using step [OF k w1 q e(1) e(2) e(3)] e(1) e(4) by (simp add: t)
  qed simp
  then show ?thesis by simp
qed

lemma init_elim:
  assumes "random_walk_init args g = Inr (w, g')"
  obtains c where "generate_walk_coordinates (store_params args) g = Inr (c, g')"
    "x w = x c" "y w = y c" "z w = z c" "params w = store_params args"
  using assms
  by (auto simp: random_walk_init_def Let_def split: sum.splits prod.splits)

lemma store_params_simps [simp]:
  "step_number (store_params args) = step_number args"
  "number_of_walks (store_params args) = number_of_walks args"
  "dimensions (store_params args) = dimensions args"
  "step_length (store_params args) = step_length args"
  "x_limits (store_params args) = x_limits args"
  "y_limits (store_params args) = y_limits args"
  "z_limits (store_params args) = z_limits args"
  "wall_mode (store_params args) = wall_mode args"
  "constraint_counter (store_params args) = constraint_counter args"
  "start_x (store_params args) = start_x args"
  "start_y (store_params args) = start_y args"
  "start_z (store_params args) = start_z args"
  "angles_xy (store_params args) = angles_xy args"
  "angles_xz (store_params args) = angles_xz args"
  by (simp_all add: store_params_def)

lemma is_step_dim1_x:
  assumes "is_step self dx dy dz" and "dimensions self = 1"
  shows "dx = step_length self \<or> dx = - step_length self"
proof -
  from assms obtain t f where *: "dx = cos t * sin f * step_length self"
    "t = 0 \<or> t = pi" "f = pi / 2"
    unfolding is_step_def by blast
  from *(2) have "cos t = 1 \<or> cos t = - 1" by auto
  then show ?thesis unfolding *(1) *(3) by auto
qed

lemma rows_within_limits:
  assumes gen: "generate_walk_coordinates self g = Inr (c, g')"
    and ex: "wall_mode self = ''exclude''"
  shows "\<forall>r. 1 \<le> r \<and> r \<le> step_number self \<longrightarrow> (\<forall>i<number_of_walks self.
           \<not> violates self (x c ! r ! i) (y c ! r ! i) (z c ! r ! i))"
proof -
  let ?Q = "\<lambda>k c. \<forall>r. 1 \<le> r \<and> r \<le> k \<longrightarrow> (\<forall>i<number_of_walks self.
           \<not> violates self (x c ! r ! i) (y c ! r ! i) (z c ! r ! i))"
  have "well_shaped (number_of_walks self) (Suc (step_number self)) c \<and> ?Q (step_number self) c"
  proof (rule generate_invariant [where Q = ?Q, OF gen])
    fix k c1 c2
    assume k: "k < step_number self" and q: "?Q k c1"
      and sr: "same_rows (Suc (step_number self)) k c1 c2"
      and v: "wall_mode self = ''exclude'' \<longrightarrow> (\<forall>i<number_of_walks self.
           \<not> violates self (x c2 ! Suc k ! i) (y c2 ! Suc k ! i) (z c2 ! Suc k ! i))"
    show "?Q (Suc k) c2"
    proof (intro allI impI)
      fix r i assume r: "1 \<le> r \<and> r \<le> Suc k" and i: "i < number_of_walks self"
      show "\<not> violates self (x c2 ! r ! i) (y c2 ! r ! i) (z c2 ! r ! i)"
      proof (cases "r = Suc k")
        case True
        then show ?thesis using v ex i by simp
      next
        case False
        then have "r \<le> k" "r < Suc (step_number self)" using r k by simp_all
        then have "x c2 ! r = x c1 ! r \<and> y c2 ! r = y c1 ! r \<and> z c2 ! r = z c1 ! r"
          using sr False by (simp add: same_rows_def)
        then show ?thesis using q r \<open>r \<le> k\<close> i by simp
      qed
    qed
  qed simp
  then show ?thesis by simp
qed

lemma rows_stepped:
  assumes gen: "generate_walk_coordinates self g = Inr (c, g')"
  shows "\<forall>s<step_number self. stepped self (number_of_walks self) s c c"
    and "broadcast (start_x self) (number_of_walks self) = Inr (x c ! 0)"
    and "broadcast (start_y self) (number_of_walks self) = Inr (y c ! 0)"
    and "broadcast (start_z self) (number_of_walks self) = Inr (z c ! 0)"
    and "well_shaped (number_of_walks self) (Suc (step_number self)) c"
proof -
  let ?n = "number_of_walks self"
  let ?Q = "\<lambda>k c. (\<forall>s<k. stepped self ?n s c c) \<and>
     broadcast (start_x self) ?n = Inr (x c ! 0) \<and>
     broadcast (start_y self) ?n = Inr (y c ! 0) \<and>
     broadcast (start_z self) ?n = Inr (z c ! 0)"
  have "well_shaped ?n (Suc (step_number self)) c \<and> ?Q (step_number self) c"
  proof (rule generate_invariant [where Q = ?Q, OF gen])
    fix k c1 c2
    assume k: "k < step_number self" and q: "?Q k c1"
      and sr: "same_rows (Suc (step_number self)) k c1 c2"
      and st: "stepped self ?n k c1 c2"
    have same: "x c2 ! r = x c1 ! r \<and> y c2 ! r = y c1 ! r \<and> z c2 ! r = z c1 ! r"
      if "r \<le> k" for r
      using sr that k by (simp add: same_rows_def)
    have "stepped self ?n s c2 c2" if s: "s < Suc k" for s
    proof (cases "s = k")
      case True
      then show ?thesis using st same [of k] by (simp add: stepped_def)
    next
      case False
      then have "s < k" using s by simp
      then have "stepped self ?n s c1 c1" using q by simp
      then show ?thesis using same [of s] same [of "Suc s"] \<open>s < k\<close> by (simp add: stepped_def)
    qed
    then show "?Q (Suc k) c2" using q same [of 0] by simp
  qed simp_all
  then show "\<forall>s<step_number self. stepped self (number_of_walks self) s c c"
    and "broadcast (start_x self) (number_of_walks self) = Inr (x c ! 0)"
    and "broadcast (start_y self) (number_of_walks self) = Inr (y c ! 0)"
    and "broadcast (start_z self) (number_of_walks self) = Inr (z c ! 0)"
    and "well_shaped (number_of_walks self) (Suc (step_number self)) c"
    by simp_all
qed

section \<open>The claims\<close>

subsection \<open>Evaluating a run\<close>

text \<open>The equations that compute a run on given parameters and a given generator.\<close>

lemmas eval_defs = default_args_def rng0_def rng1_def generate_walk_coordinates_def walk_step_def
  calc_next_steps_def random_choice_def random_uniform_def check_constraints_def
  broadcast_def zeros_def add_rows_def exceeds_def any_py_def count_true_def bump_def
  retry_def random_walk_init_def store_params_def normalize_def mean_def sq_diff_def
  exclude_loop_done exclude_loop_again Let_def upt_conv_Cons

subsection \<open>Runs of no step\<close>

lemma generate_no_steps:
  assumes "step_number self = 0"
    and "broadcast (start_x self) (number_of_walks self) = Inr rx"
    and "broadcast (start_y self) (number_of_walks self) = Inr ry"
    and "broadcast (start_z self) (number_of_walks self) = Inr rz"
  shows "generate_walk_coordinates self g = Inr (\<lparr>x = [rx], y = [ry], z = [rz]\<rparr>, g)"
  using assms by (simp add: generate_walk_coordinates_def zeros_def)

lemma init_no_steps:
  assumes "step_number args = 0"
    and "broadcast (start_x args) (number_of_walks args) = Inr rx"
    and "broadcast (start_y args) (number_of_walks args) = Inr ry"
    and "broadcast (start_z args) (number_of_walks args) = Inr rz"
  shows "\<exists>w. random_walk_init args g = Inr (w, g) \<and> x w = [rx] \<and> y w = [ry] \<and> z w = [rz]
           \<and> params w = store_params args"
proof -
  have "generate_walk_coordinates (store_params args) g
        = Inr (\<lparr>x = [rx], y = [ry], z = [rz]\<rparr>, g)"
    using assms by (intro generate_no_steps) (simp_all add: store_params_def)
  then show ?thesis by (simp add: random_walk_init_def Let_def)
qed

lemma broadcast_fits:
  assumes "\<forall>l. s = PerWalk l \<longrightarrow> length l = n"
  shows "broadcast s n = Inr (case s of Scalar v \<Rightarrow> replicate n v | PerWalk l \<Rightarrow> l)"
  using assms by (cases s) (simp_all add: broadcast_def)

lemma broadcast_value:
  assumes "broadcast s n = Inr r"
  shows "r = (case s of Scalar v \<Rightarrow> replicate n v
              | PerWalk l \<Rightarrow> if length l = n then l else replicate n (hd l))"
  using assms by (cases s) (auto simp: broadcast_def split: if_splits)

text \<open>
  Claim C10. When \<open>step_number\<close> is 0 the body of the \<open>for\<close> loop never runs: whatever
  \<open>wall_mode\<close> and \<open>dimensions\<close> are, generation succeeds, consumes no random number, and
  each of the arrays \<open>x\<close>, \<open>y\<close>, \<open>z\<close> is a single row, the start positions: a start
  number repeated for every walk, or the start list itself. (A start list is one value
  per walk.)
\<close>

theorem zero_steps_never_fail:
  assumes "step_number args = 0"
    and "\<forall>l. start_x args = PerWalk l \<longrightarrow> length l = number_of_walks args"
    and "\<forall>l. start_y args = PerWalk l \<longrightarrow> length l = number_of_walks args"
    and "\<forall>l. start_z args = PerWalk l \<longrightarrow> length l = number_of_walks args"
  shows "generate_walk_coordinates args g =
           Inr (\<lparr>x = [case start_x args of Scalar v \<Rightarrow> replicate (number_of_walks args) v
                                          | PerWalk l \<Rightarrow> l],
                  y = [case start_y args of Scalar v \<Rightarrow> replicate (number_of_walks args) v
                                          | PerWalk l \<Rightarrow> l],
                  z = [case start_z args of Scalar v \<Rightarrow> replicate (number_of_walks args) v
                                          | PerWalk l \<Rightarrow> l]\<rparr>, g) \<and>
         (\<exists>w. random_walk_init args g = Inr (w, g) \<and>
              x w = [case start_x args of Scalar v \<Rightarrow> replicate (number_of_walks args) v
                                        | PerWalk l \<Rightarrow> l] \<and>
              y w = [case start_y args of Scalar v \<Rightarrow> replicate (number_of_walks args) v
                                        | PerWalk l \<Rightarrow> l] \<and>
              z w = [case start_z args of Scalar v \<Rightarrow> replicate (number_of_walks args) v
                                        | PerWalk l \<Rightarrow> l])"
proof -
  note b = broadcast_fits [OF assms(2)] broadcast_fits [OF assms(3)] broadcast_fits [OF assms(4)]
  show ?thesis
    using generate_no_steps [OF assms(1) b, of g] init_no_steps [OF assms(1) b, of g] by blast
qed

theorem zero_steps_never_fail_witness:
  "generate_walk_coordinates
     (default_args\<lparr>step_number := 0, number_of_walks := 2, start_x := Scalar 3,
                   start_y := PerWalk [4, 5], start_z := Scalar (- 1), dimensions := 7,
                   wall_mode := ''bounce''\<rparr>) rng0
   = Inr (\<lparr>x = [[3, 3]], y = [[4, 5]], z = [[- 1, - 1]]\<rparr>, rng0)"
proof -
  let ?a = "default_args\<lparr>step_number := 0, number_of_walks := 2, start_x := Scalar 3,
                   start_y := PerWalk [4, 5], start_z := Scalar (- 1), dimensions := 7,
                   wall_mode := ''bounce''\<rparr>"
  have "step_number ?a = 0" by (simp add: default_args_def)
  moreover have "\<forall>l. start_x ?a = PerWalk l \<longrightarrow> length l = number_of_walks ?a"
    "\<forall>l. start_y ?a = PerWalk l \<longrightarrow> length l = number_of_walks ?a"
    "\<forall>l. start_z ?a = PerWalk l \<longrightarrow> length l = number_of_walks ?a"
    by (auto simp: default_args_def)
  ultimately have "generate_walk_coordinates ?a rng0 =
           Inr (\<lparr>x = [case start_x ?a of Scalar v \<Rightarrow> replicate (number_of_walks ?a) v
                                          | PerWalk l \<Rightarrow> l],
                  y = [case start_y ?a of Scalar v \<Rightarrow> replicate (number_of_walks ?a) v
                                          | PerWalk l \<Rightarrow> l],
                  z = [case start_z ?a of Scalar v \<Rightarrow> replicate (number_of_walks ?a) v
                                          | PerWalk l \<Rightarrow> l]\<rparr>, rng0)"
    using zero_steps_never_fail [of ?a rng0] by blast
  then show ?thesis by (simp add: default_args_def numeral_2_eq_2)
qed

subsection \<open>The weights of the angles\<close>

lemma sum_list_pos_real:
  "p \<noteq> [] \<Longrightarrow> \<forall>v \<in> set p. (0::real) < v \<Longrightarrow> 0 < sum_list p"
proof (induction p)
  case Nil
  then show ?case by simp
next
  case (Cons a p)
  then show ?case by (cases p) (auto intro: add_pos_pos)
qed

lemma sum_list_divide_const:
  "sum_list (map (\<lambda>v. v / c) p) = sum_list p / (c::real)"
  by (induction p) (simp_all add: add_divide_distrib)

lemma sum_list_normalize:
  "sum_list p \<noteq> 0 \<Longrightarrow> sum_list (normalize p) = 1"
  by (simp add: normalize_def sum_list_divide_const)

lemma random_walk_init_params:
  "random_walk_init args g = Inr (w, g') \<Longrightarrow> params w = store_params args"
  by (auto simp: random_walk_init_def Let_def split: sum.splits prod.splits)

text \<open>
  Claim C9, as amended. The constructor stores a weight vector \<open>angles_xy_p\<close> (or
  \<open>angles_xz_p\<close>) divided, entry by entry, by its sum, once; when the vector is not empty
  and its entries are positive, the stored vector sums to 1. A weight vector that is
  \<open>None\<close> stays \<open>None\<close>.
\<close>

theorem weights_divided_by_sum:
  assumes "random_walk_init args g = Inr (w, g')"
  shows "(\<forall>p. angles_xy_p args = Some p \<longrightarrow>
            angles_xy_p (params w) = Some (map (\<lambda>v. v / sum_list p) p) \<and>
            (p \<noteq> [] \<and> (\<forall>v \<in> set p. 0 < v) \<longrightarrow> sum_list (map (\<lambda>v. v / sum_list p) p) = 1)) \<and>
         (\<forall>p. angles_xz_p args = Some p \<longrightarrow>
            angles_xz_p (params w) = Some (map (\<lambda>v. v / sum_list p) p) \<and>
            (p \<noteq> [] \<and> (\<forall>v \<in> set p. 0 < v) \<longrightarrow> sum_list (map (\<lambda>v. v / sum_list p) p) = 1)) \<and>
         (angles_xy_p args = None \<longrightarrow> angles_xy_p (params w) = None) \<and>
         (angles_xz_p args = None \<longrightarrow> angles_xz_p (params w) = None)"
proof -
  have pw: "params w = store_params args"
    using assms by (rule random_walk_init_params)
  have n: "sum_list (map (\<lambda>v. v / sum_list p) p) = 1"
    if "p \<noteq> [] \<and> (\<forall>v \<in> set p. 0 < v)" for p :: "real list"
  proof -
    have "0 < sum_list p" using that by (intro sum_list_pos_real) simp_all
    then show ?thesis by (simp add: sum_list_divide_const)
  qed
  show ?thesis
    using n by (auto simp: pw store_params_def normalize_def)
qed

theorem weights_divided_by_sum_witness:
  "\<exists>w g'. random_walk_init
            (default_args\<lparr>step_number := 0, angles_xy_p := Some [1, 3]\<rparr>) rng0 = Inr (w, g') \<and>
          angles_xy_p (params w) = Some [1 / 4, 3 / 4] \<and> sum_list [1 / 4, 3 / 4 :: real] = 1"
proof -
  let ?a = "default_args\<lparr>step_number := 0, angles_xy_p := Some [1, 3]\<rparr>"
  have "\<exists>w. random_walk_init ?a rng0 = Inr (w, rng0) \<and> x w = [[0]] \<and> y w = [[0]] \<and> z w = [[0]]
           \<and> params w = store_params ?a"
    by (rule init_no_steps) (simp_all add: default_args_def broadcast_def)
  then obtain w where w: "random_walk_init ?a rng0 = Inr (w, rng0)" by blast
  have "angles_xy_p ?a = Some [1, 3]" by simp
  then have "angles_xy_p (params w) = Some (map (\<lambda>v. v / sum_list [1, 3 :: real]) [1, 3]) \<and>
     ([1, 3 :: real] \<noteq> [] \<and> (\<forall>v \<in> set [1, 3 :: real]. 0 < v) \<longrightarrow>
        sum_list (map (\<lambda>v. v / sum_list [1, 3 :: real]) [1, 3]) = 1)"
    using weights_divided_by_sum [OF w] by blast
  then have "angles_xy_p (params w) = Some [1 / 4, 3 / 4] \<and> sum_list [1 / 4, 3 / 4 :: real] = 1"
    by simp
  then show ?thesis using w by blast
qed

text \<open>
  The claim as stated, for any sequence of positive values, fails at the sequence of no
  value: the constructor succeeds and the stored vector is empty, of sum 0.
\<close>

theorem empty_weights_counterexample:
  "random_walk_init (default_args\<lparr>step_number := 1, angles_xy_p := Some []\<rparr>) rng0
   = Inr (\<lparr>x = [[0], [1]], y = [[0], [0]], z = [[0], [0]],
           params = default_args\<lparr>step_number := 1, angles_xy_p := Some []\<rparr>,
           end2end_real = [1], end2end = 1\<rparr>, rng0\<lparr>pos := 1\<rparr>) \<and>
   sum_list (the (angles_xy_p (default_args\<lparr>step_number := 1, angles_xy_p := Some []\<rparr>))) \<noteq> 1"
  by (simp add: eval_defs)

subsection \<open>The limits\<close>

lemma check_constraints_flags:
  assumes "check_constraints self cx cy cz = Inr v" and "i < length v"
  shows "v ! i =
     ((\<exists>l. x_limits self = Some l \<and> (cx ! i > snd l \<or> cx ! i < fst l)) \<or>
      (\<exists>l. y_limits self = Some l \<and> (cy ! i > snd l \<or> cy ! i < fst l)) \<or>
      (\<exists>l. z_limits self = Some l \<and> (cz ! i > snd l \<or> cz ! i < fst l)))"
proof -
  note k = check_constraints_Inr [OF assms(1)]
  have "v ! i = violates self (cx ! i) (cy ! i) (cz ! i)"
    using k(3,4) assms(2) by simp
  then show ?thesis
    by (auto simp: violates_def outside_def split: option.splits)
qed

text \<open>
  Claim C1, as amended. With \<open>wall_mode = 'exclude'\<close>, after a successful generation every
  coordinate of every row after row 0, on every axis that has limits, lies within
  \<open>[min, max]\<close>, for all walks; row 0 is the start positions as given (a start number,
  or the entry of a start list of one entry, repeated for every walk, or else the start
  list, of one entry per walk), whatever the limits are;
  \<open>check_constraints\<close> flags a walk exactly when a coordinate is strictly greater than
  the maximum or strictly less than the minimum of a limited axis.
\<close>

theorem limits_hold_after_start:
  assumes "random_walk_init args g = Inr (w, g')" and "wall_mode args = ''exclude''"
  shows "(\<forall>r i. 1 \<le> r \<and> r \<le> step_number args \<and> i < number_of_walks args \<longrightarrow>
            (\<forall>l. x_limits args = Some l \<longrightarrow> fst l \<le> x w ! r ! i \<and> x w ! r ! i \<le> snd l) \<and>
            (\<forall>l. y_limits args = Some l \<longrightarrow> fst l \<le> y w ! r ! i \<and> y w ! r ! i \<le> snd l) \<and>
            (\<forall>l. z_limits args = Some l \<longrightarrow> fst l \<le> z w ! r ! i \<and> z w ! r ! i \<le> snd l)) \<and>
         x w ! 0 = (case start_x args of
                      Scalar v \<Rightarrow> replicate (number_of_walks args) v
                    | PerWalk l \<Rightarrow> if length l = number_of_walks args then l
                                   else replicate (number_of_walks args) (hd l)) \<and>
         y w ! 0 = (case start_y args of
                      Scalar v \<Rightarrow> replicate (number_of_walks args) v
                    | PerWalk l \<Rightarrow> if length l = number_of_walks args then l
                                   else replicate (number_of_walks args) (hd l)) \<and>
         z w ! 0 = (case start_z args of
                      Scalar v \<Rightarrow> replicate (number_of_walks args) v
                    | PerWalk l \<Rightarrow> if length l = number_of_walks args then l
                                   else replicate (number_of_walks args) (hd l)) \<and>
         (\<forall>cx cy cz v i. check_constraints args cx cy cz = Inr v \<and> i < length v \<longrightarrow>
            v ! i =
              ((\<exists>l. x_limits args = Some l \<and> (cx ! i > snd l \<or> cx ! i < fst l)) \<or>
               (\<exists>l. y_limits args = Some l \<and> (cy ! i > snd l \<or> cy ! i < fst l)) \<or>
               (\<exists>l. z_limits args = Some l \<and> (cz ! i > snd l \<or> cz ! i < fst l))))"
proof -
  from assms(1) obtain c where
    gen: "generate_walk_coordinates (store_params args) g = Inr (c, g')"
    and xs: "x w = x c" "y w = y c" "z w = z c"
    by (rule init_elim)
  have "\<forall>r. 1 \<le> r \<and> r \<le> step_number args \<longrightarrow> (\<forall>i<number_of_walks args.
           \<not> violates (store_params args) (x c ! r ! i) (y c ! r ! i) (z c ! r ! i))"
    using rows_within_limits [OF gen] assms(2) by simp
  then have a: "\<forall>r i. 1 \<le> r \<and> r \<le> step_number args \<and> i < number_of_walks args \<longrightarrow>
            (\<forall>l. x_limits args = Some l \<longrightarrow> fst l \<le> x w ! r ! i \<and> x w ! r ! i \<le> snd l) \<and>
            (\<forall>l. y_limits args = Some l \<longrightarrow> fst l \<le> y w ! r ! i \<and> y w ! r ! i \<le> snd l) \<and>
            (\<forall>l. z_limits args = Some l \<longrightarrow> fst l \<le> z w ! r ! i \<and> z w ! r ! i \<le> snd l)"
    by (fastforce simp: violates_def outside_def xs not_less)
  note rs = rows_stepped(2,3,4) [OF gen, unfolded store_params_simps]
  have b: "x w ! 0 = (case start_x args of
                      Scalar v \<Rightarrow> replicate (number_of_walks args) v
                    | PerWalk l \<Rightarrow> if length l = number_of_walks args then l
                                   else replicate (number_of_walks args) (hd l))"
    using broadcast_value [OF rs(1)] by (simp add: xs)
  have c: "y w ! 0 = (case start_y args of
                      Scalar v \<Rightarrow> replicate (number_of_walks args) v
                    | PerWalk l \<Rightarrow> if length l = number_of_walks args then l
                                   else replicate (number_of_walks args) (hd l))"
    using broadcast_value [OF rs(2)] by (simp add: xs)
  have d: "z w ! 0 = (case start_z args of
                      Scalar v \<Rightarrow> replicate (number_of_walks args) v
                    | PerWalk l \<Rightarrow> if length l = number_of_walks args then l
                                   else replicate (number_of_walks args) (hd l))"
    using broadcast_value [OF rs(3)] by (simp add: xs)
  have e: "\<forall>cx cy cz v i. check_constraints args cx cy cz = Inr v \<and> i < length v \<longrightarrow>
            v ! i =
              ((\<exists>l. x_limits args = Some l \<and> (cx ! i > snd l \<or> cx ! i < fst l)) \<or>
               (\<exists>l. y_limits args = Some l \<and> (cy ! i > snd l \<or> cy ! i < fst l)) \<or>
               (\<exists>l. z_limits args = Some l \<and> (cz ! i > snd l \<or> cz ! i < fst l)))"
    using check_constraints_flags by blast
  from a b c d e show ?thesis by (intro conjI)
qed

theorem limits_hold_after_start_witness:
  "\<exists>w g'. random_walk_init
     (default_args\<lparr>step_number := 1, dimensions := 1, start_x := Scalar 10,
                   x_limits := Some (- 10, 10)\<rparr>) rng0 = Inr (w, g') \<and>
     x w = [[10], [9]] \<and> - 10 \<le> x w ! 1 ! 0 \<and> x w ! 1 ! 0 \<le> 10 \<and> x w ! 0 = replicate 1 10"
proof -
  let ?a = "default_args\<lparr>step_number := 1, dimensions := 1, start_x := Scalar 10,
                   x_limits := Some (- 10, 10)\<rparr>"
  have "\<exists>w g'. random_walk_init ?a rng0 = Inr (w, g') \<and> x w = [[10], [9]]"
    by (simp add: eval_defs)
  then obtain w g' where run: "random_walk_init ?a rng0 = Inr (w, g')" and xw: "x w = [[10], [9]]"
    by blast
  have wm: "wall_mode ?a = ''exclude''" by (simp add: default_args_def)
  note t = limits_hold_after_start [OF run wm]
  from t have "1 \<le> (1::nat) \<and> 1 \<le> step_number ?a \<and> 0 < number_of_walks ?a \<longrightarrow>
            (\<forall>l. x_limits ?a = Some l \<longrightarrow> fst l \<le> x w ! 1 ! 0 \<and> x w ! 1 ! 0 \<le> snd l)"
    by blast
  then have 1: "- 10 \<le> x w ! 1 ! 0 \<and> x w ! 1 ! 0 \<le> 10"
    by (simp add: default_args_def)
  from t have "x w ! 0 = (case start_x ?a of
                      Scalar v \<Rightarrow> replicate (number_of_walks ?a) v
                    | PerWalk l \<Rightarrow> if length l = number_of_walks ?a then l
                                   else replicate (number_of_walks ?a) (hd l))"
    by blast
  then have 2: "x w ! 0 = replicate 1 10" by (simp add: default_args_def)
  from run xw 1 2 show ?thesis by blast
qed

text \<open>
  The claim as stated, for every row, fails at row 0: a walk that starts at 11 with the
  limits \<open>[-10, 10]\<close> steps to 10 and the generation succeeds.
\<close>

theorem start_row_unchecked_counterexample:
  "random_walk_init
     (default_args\<lparr>step_number := 1, dimensions := 1, start_x := Scalar 11,
                   x_limits := Some (- 10, 10)\<rparr>) rng1
   = Inr (\<lparr>x = [[11], [10]], y = [[0], [0]], z = [[0], [0]],
           params = default_args\<lparr>step_number := 1, dimensions := 1, start_x := Scalar 11,
                                  x_limits := Some (- 10, 10)\<rparr>,
           end2end_real = [1], end2end = 1\<rparr>,
          rng1\<lparr>pos := 1\<rparr>) \<and>
   wall_mode (default_args\<lparr>step_number := 1, dimensions := 1, start_x := Scalar 11,
                   x_limits := Some (- 10, 10)\<rparr>) = ''exclude'' \<and>
   \<not> ([[11], [10 :: real]] ! 0 ! 0 \<le> 10)"
  by (simp add: eval_defs)

subsection \<open>The length of a step\<close>

lemma stepped_length:
  assumes "stepped self n s c c" and "i < n"
  shows "(x c ! Suc s ! i - x c ! s ! i)\<^sup>2 + (y c ! Suc s ! i - y c ! s ! i)\<^sup>2
         + (z c ! Suc s ! i - z c ! s ! i)\<^sup>2 = (step_length self)\<^sup>2"
proof -
  from assms obtain dx dy dz where st: "is_step self dx dy dz"
    and e: "x c ! Suc s ! i = x c ! s ! i + dx" "y c ! Suc s ! i = y c ! s ! i + dy"
      "z c ! Suc s ! i = z c ! s ! i + dz"
    unfolding stepped_def by blast
  show ?thesis using is_step_length [OF st] by (simp add: e)
qed

text \<open>
  Claim C3. After a successful generation, for every step \<open>s\<close> and every walk, the
  Euclidean distance between the positions in rows \<open>s\<close> and \<open>s + 1\<close> is \<open>step_length\<close>
  (a length, so not negative), in 1, 2 and 3 dimensions: a generation that succeeds
  with a step has \<open>dimensions\<close> in \<open>{1, 2, 3}\<close>. This holds with no limits, as the claim
  says, and with limits too, since a rejected step is replaced by another step from the
  same previous row. The arithmetic is exact here; the code's is float64.
\<close>

theorem steps_have_step_length:
  assumes "random_walk_init args g = Inr (w, g')" and "0 \<le> step_length args"
  shows "\<forall>s i. s < step_number args \<and> i < number_of_walks args \<longrightarrow>
           sqrt ((x w ! Suc s ! i - x w ! s ! i)\<^sup>2 + (y w ! Suc s ! i - y w ! s ! i)\<^sup>2
                 + (z w ! Suc s ! i - z w ! s ! i)\<^sup>2) = step_length args"
proof (intro allI impI)
  fix s i assume si: "s < step_number args \<and> i < number_of_walks args"
  from assms(1) obtain c where
    gen: "generate_walk_coordinates (store_params args) g = Inr (c, g')"
    and xs: "x w = x c" "y w = y c" "z w = z c"
    by (rule init_elim)
  have "stepped (store_params args) (number_of_walks args) s c c"
    using rows_stepped(1) [OF gen] si by simp
  then have "(x c ! Suc s ! i - x c ! s ! i)\<^sup>2 + (y c ! Suc s ! i - y c ! s ! i)\<^sup>2
         + (z c ! Suc s ! i - z c ! s ! i)\<^sup>2 = (step_length args)\<^sup>2"
    using stepped_length [of "store_params args" "number_of_walks args" s c i] si by simp
  then show "sqrt ((x w ! Suc s ! i - x w ! s ! i)\<^sup>2 + (y w ! Suc s ! i - y w ! s ! i)\<^sup>2
                 + (z w ! Suc s ! i - z w ! s ! i)\<^sup>2) = step_length args"
    using assms(2) by (simp add: xs)
qed

theorem steps_have_step_length_witness:
  "\<exists>w g'. random_walk_init (default_args\<lparr>step_number := 1, dimensions := 3, step_length := 2\<rparr>) rng0
            = Inr (w, g') \<and> z w = [[0], [2]] \<and>
          sqrt ((x w ! Suc 0 ! 0 - x w ! 0 ! 0)\<^sup>2 + (y w ! Suc 0 ! 0 - y w ! 0 ! 0)\<^sup>2
                + (z w ! Suc 0 ! 0 - z w ! 0 ! 0)\<^sup>2) = 2"
proof -
  let ?a = "default_args\<lparr>step_number := 1, dimensions := 3, step_length := 2\<rparr>"
  have "\<exists>w g'. random_walk_init ?a rng0 = Inr (w, g') \<and> z w = [[0], [2]]"
    by (simp add: eval_defs)
  then obtain w g' where run: "random_walk_init ?a rng0 = Inr (w, g')" and zw: "z w = [[0], [2]]"
    by blast
  have h: "0 \<le> step_length ?a" by (simp add: default_args_def)
  have "0 < step_number ?a \<and> 0 < number_of_walks ?a \<longrightarrow>
        sqrt ((x w ! Suc 0 ! 0 - x w ! 0 ! 0)\<^sup>2 + (y w ! Suc 0 ! 0 - y w ! 0 ! 0)\<^sup>2
                + (z w ! Suc 0 ! 0 - z w ! 0 ! 0)\<^sup>2) = step_length ?a"
    using steps_have_step_length [OF run h] by blast
  then have "sqrt ((x w ! Suc 0 ! 0 - x w ! 0 ! 0)\<^sup>2 + (y w ! Suc 0 ! 0 - y w ! 0 ! 0)\<^sup>2
                + (z w ! Suc 0 ! 0 - z w ! 0 ! 0)\<^sup>2) = 2"
    by (simp add: default_args_def)
  then show ?thesis using run zw by blast
qed

subsection \<open>Walks in one and two dimensions, in exact arithmetic\<close>

lemma stepped_confined:
  assumes st: "\<forall>s<N. stepped self n s c c" and i: "i < n" and r: "r \<le> N"
  shows "dimensions self = 1 \<Longrightarrow> y c ! r ! i = y c ! 0 ! i"
    and "dimensions self = 1 \<or> dimensions self = 2 \<Longrightarrow> z c ! r ! i = z c ! 0 ! i"
proof -
  have step: "\<exists>dx dy dz. is_step self dx dy dz \<and> y c ! Suc s ! i = y c ! s ! i + dy \<and>
      z c ! Suc s ! i = z c ! s ! i + dz" if "s < N" for s
    using st that i unfolding stepped_def by blast
  show "y c ! r ! i = y c ! 0 ! i" if d: "dimensions self = 1"
    using r
  proof (induction r)
    case 0
    then show ?case by simp
  next
    case (Suc s)
    then have "s < N" by simp
    from step [OF this] obtain dx dy dz where "is_step self dx dy dz"
      and e: "y c ! Suc s ! i = y c ! s ! i + dy" by blast
    then have "dy = 0" using is_step_dim1(1) d by blast
    then show ?case using e Suc by simp
  qed
  show "z c ! r ! i = z c ! 0 ! i" if d: "dimensions self = 1 \<or> dimensions self = 2"
    using r
  proof (induction r)
    case 0
    then show ?case by simp
  next
    case (Suc s)
    then have "s < N" by simp
    from step [OF this] obtain dx dy dz where k: "is_step self dx dy dz"
      and e: "z c ! Suc s ! i = z c ! s ! i + dz" by blast
    have "dz = 0" using is_step_dim1(2) [OF k] is_step_dim2 [OF k] d by blast
    then show ?case using e Suc by simp
  qed
qed

lemma stepped_dim1_x:
  assumes "stepped self n s c c" and "i < n" and "dimensions self = 1"
  shows "x c ! Suc s ! i - x c ! s ! i = step_length self
         \<or> x c ! Suc s ! i - x c ! s ! i = - step_length self"
proof -
  from assms obtain dx dy dz where st: "is_step self dx dy dz"
    and e: "x c ! Suc s ! i = x c ! s ! i + dx"
    unfolding stepped_def by blast
  show ?thesis using is_step_dim1_x [OF st assms(3)] by (simp add: e)
qed

text \<open>
  In exact arithmetic \<open>sin \<pi> = 0\<close> and \<open>cos (\<pi>/2) = 0\<close>, so a walk in one dimension
  keeps its \<open>y\<close> and \<open>z\<close> coordinates, and a walk in two dimensions its \<open>z\<close> coordinate.
  This is a fact of the real numbers of this model only. The code computes
  \<open>np.sin(np.pi)\<close> and \<open>np.cos(np.pi/2)\<close> in float64, where they are about \<open>1.2e-16\<close> and
  \<open>6.1e-17\<close>, so the stored coordinates of a run move by such amounts: whether they
  equal their start values exactly is decided by rounding, which is not modelled.
\<close>

lemma confined_in_exact_arithmetic:
  assumes "random_walk_init args g = Inr (w, g')"
  shows "(dimensions args = 1 \<longrightarrow>
           (\<forall>r i. r \<le> step_number args \<and> i < number_of_walks args \<longrightarrow>
              y w ! r ! i = y w ! 0 ! i \<and> z w ! r ! i = z w ! 0 ! i) \<and>
           (\<forall>s i. s < step_number args \<and> i < number_of_walks args \<longrightarrow>
              x w ! Suc s ! i - x w ! s ! i = step_length args \<or>
              x w ! Suc s ! i - x w ! s ! i = - step_length args)) \<and>
         (dimensions args = 2 \<longrightarrow>
           (\<forall>r i. r \<le> step_number args \<and> i < number_of_walks args \<longrightarrow>
              z w ! r ! i = z w ! 0 ! i)) \<and>
         broadcast (start_x args) (number_of_walks args) = Inr (x w ! 0) \<and>
         broadcast (start_y args) (number_of_walks args) = Inr (y w ! 0) \<and>
         broadcast (start_z args) (number_of_walks args) = Inr (z w ! 0)"
proof -
  from assms(1) obtain c where
    gen: "generate_walk_coordinates (store_params args) g = Inr (c, g')"
    and xs: "x w = x c" "y w = y c" "z w = z c"
    by (rule init_elim)
  note rs = rows_stepped [OF gen]
  have st: "\<forall>s<step_number args. stepped (store_params args) (number_of_walks args) s c c"
    using rs(1) by simp
  have a: "y c ! r ! i = y c ! 0 ! i \<and> z c ! r ! i = z c ! 0 ! i"
    if "dimensions args = 1" "r \<le> step_number args" "i < number_of_walks args" for r i
    using stepped_confined [OF st that(3) that(2)] that(1) by simp
  have b: "z c ! r ! i = z c ! 0 ! i"
    if "dimensions args = 2" "r \<le> step_number args" "i < number_of_walks args" for r i
    using stepped_confined(2) [OF st that(3) that(2)] that(1) by simp
  have c: "x c ! Suc s ! i - x c ! s ! i = step_length args \<or>
           x c ! Suc s ! i - x c ! s ! i = - step_length args"
    if "dimensions args = 1" "s < step_number args" "i < number_of_walks args" for s i
    using stepped_dim1_x [of "store_params args" "number_of_walks args" s c i] st that by simp
  have s1: "broadcast (start_x args) (number_of_walks args) = Inr (x w ! 0)"
    and s2: "broadcast (start_y args) (number_of_walks args) = Inr (y w ! 0)"
    and s3: "broadcast (start_z args) (number_of_walks args) = Inr (z w ! 0)"
    using rs(2,3,4) by (simp_all add: xs)
  show ?thesis
    unfolding xs
    apply (intro conjI impI allI)
    subgoal for r i using a [of r i] by blast
    subgoal for r i using a [of r i] by blast
    subgoal for s i using c [of s i] by blast
    subgoal for r i using b [of r i] by blast
    subgoal using s1 unfolding xs .
    subgoal using s2 unfolding xs .
    subgoal using s3 unfolding xs .
    done
qed

subsection \<open>The wall mode 'reflect'\<close>

lemma calc_next_steps_limits [simp]:
  "calc_next_steps (self\<lparr>x_limits := lx, y_limits := ly, z_limits := lz\<rparr>) n g
   = calc_next_steps self n g"
  by (simp add: calc_next_steps_def cong: sum.case_cong prod.case_cong if_cong option.case_cong)

lemma check_constraints_cases:
  "check_constraints self cx cy cz = Inl UnequalLengths \<and>
     \<not> (length cx = length cy \<and> length cy = length cz)
   \<or> (\<exists>v. check_constraints self cx cy cz = Inr v) \<and> length cx = length cy \<and> length cy = length cz"
  by (simp add: check_constraints_def Let_def)

lemma walk_step_reflect:
  assumes "wall_mode self = ''reflect''"
  shows "walk_step self s (c, g) =
     (case calc_next_steps self (number_of_walks self) g of
        Inl e \<Rightarrow> Inl e
      | Inr ((sx, sy, sz), g') \<Rightarrow>
          if length (((x c)[Suc s := add_rows (x c ! s) sx]) ! Suc s)
               = length (((y c)[Suc s := add_rows (y c ! s) sy]) ! Suc s) \<and>
             length (((y c)[Suc s := add_rows (y c ! s) sy]) ! Suc s)
               = length (((z c)[Suc s := add_rows (z c ! s) sz]) ! Suc s)
          then Inr (c\<lparr>x := (x c)[Suc s := add_rows (x c ! s) sx],
                      y := (y c)[Suc s := add_rows (y c ! s) sy],
                      z := (z c)[Suc s := add_rows (z c ! s) sz]\<rparr>, g')
          else Inl UnequalLengths)"
  using assms
  by (auto simp: walk_step_def Let_def check_constraints_def split: sum.splits prod.splits)

lemma walk_step_reflect_limits:
  assumes "wall_mode self = ''reflect''"
  shows "walk_step (self\<lparr>x_limits := lx, y_limits := ly, z_limits := lz\<rparr>) s st
         = walk_step self s st"
proof -
  obtain c g where st: "st = (c, g)" by (cases st)
  have "wall_mode (self\<lparr>x_limits := lx, y_limits := ly, z_limits := lz\<rparr>) = ''reflect''"
    using assms by simp
  from walk_step_reflect [OF this] walk_step_reflect [OF assms]
  show ?thesis by (simp add: st)
qed

lemma walk_steps_reflect_limits:
  assumes "wall_mode self = ''reflect''"
  shows "walk_steps (self\<lparr>x_limits := lx, y_limits := ly, z_limits := lz\<rparr>) ss st
         = walk_steps self ss st"
proof (induction ss arbitrary: st)
  case Nil
  then show ?case by simp
next
  case (Cons k ss)
  show ?case
    by (cases "walk_step self k st")
       (simp_all add: walk_step_reflect_limits [OF assms] Cons.IH)
qed

text \<open>
  Claim C4. With \<open>wall_mode = 'reflect'\<close> the branch that handles the constraints is
  \<open>pass\<close>: a step stores the previous row plus the sampled step and nothing else, and
  the generated coordinates are the same whatever the limits are, so a coordinate
  outside the limits stays in the trajectory.
\<close>

theorem reflect_enforces_nothing:
  assumes "wall_mode self = ''reflect''"
  shows "generate_walk_coordinates (self\<lparr>x_limits := lx, y_limits := ly, z_limits := lz\<rparr>) g
           = generate_walk_coordinates self g \<and>
         walk_step self s (c, g) =
           (case calc_next_steps self (number_of_walks self) g of
              Inl e \<Rightarrow> Inl e
            | Inr ((sx, sy, sz), g') \<Rightarrow>
                if length (((x c)[Suc s := add_rows (x c ! s) sx]) ! Suc s)
                     = length (((y c)[Suc s := add_rows (y c ! s) sy]) ! Suc s) \<and>
                   length (((y c)[Suc s := add_rows (y c ! s) sy]) ! Suc s)
                     = length (((z c)[Suc s := add_rows (z c ! s) sz]) ! Suc s)
                then Inr (c\<lparr>x := (x c)[Suc s := add_rows (x c ! s) sx],
                            y := (y c)[Suc s := add_rows (y c ! s) sy],
                            z := (z c)[Suc s := add_rows (z c ! s) sz]\<rparr>, g')
                else Inl UnequalLengths)"
proof
  show "generate_walk_coordinates (self\<lparr>x_limits := lx, y_limits := ly, z_limits := lz\<rparr>) g
           = generate_walk_coordinates self g"
    by (simp add: generate_walk_coordinates_def walk_steps_reflect_limits [OF assms]
           cong: sum.case_cong)
qed (rule walk_step_reflect [OF assms])

theorem reflect_enforces_nothing_witness:
  "generate_walk_coordinates
     (default_args\<lparr>step_number := 1, dimensions := 1, wall_mode := ''reflect'',
         x_limits := Some (0, 1 / 2), y_limits := None, z_limits := None\<rparr>) rng0
   = Inr (\<lparr>x = [[0], [1]], y = [[0], [0]], z = [[0], [0]]\<rparr>, rng0\<lparr>pos := 1\<rparr>) \<and>
   (1 / 2 :: real) < [[0], [1]] ! 1 ! 0"
proof -
  let ?a = "default_args\<lparr>step_number := 1, dimensions := 1, wall_mode := ''reflect''\<rparr>"
  have wm: "wall_mode ?a = ''reflect''" by simp
  have e1: "generate_walk_coordinates ?a rng0
        = Inr (\<lparr>x = [[0], [1]], y = [[0], [0]], z = [[0], [0]]\<rparr>, rng0\<lparr>pos := 1\<rparr>)"
    by (simp add: eval_defs)
  have e2: "generate_walk_coordinates
              (?a\<lparr>x_limits := Some (0, 1 / 2), y_limits := None, z_limits := None\<rparr>) rng0
            = generate_walk_coordinates ?a rng0"
    using reflect_enforces_nothing [OF wm] by blast
  have "(1 / 2 :: real) < [[0], [1]] ! 1 ! 0" by simp
  then show ?thesis unfolding e2 e1 by blast
qed

subsection \<open>Invalid dimensions and wall modes\<close>

lemma walk_step_bad_dimensions:
  assumes "dimensions self \<noteq> 1" "dimensions self \<noteq> 2" "dimensions self \<noteq> 3"
  shows "walk_step self s st = Inl (BadDimensions (dimensions self))"
  using assms by (cases st) (simp add: walk_step_def calc_next_steps_def)

lemma walk_step_bad_wall_mode:
  assumes wm: "wall_mode self \<noteq> ''exclude''" "wall_mode self \<noteq> ''reflect''"
    and calc: "calc_next_steps self (number_of_walks self) g = Inr ((sx, sy, sz), g1)"
    and len: "Suc s < length (x c)" "Suc s < length (y c)" "Suc s < length (z c)"
    and row: "length (x c ! s) = number_of_walks self" "length (y c ! s) = number_of_walks self"
      "length (z c ! s) = number_of_walks self"
  shows "walk_step self s (c, g) = Inl (BadWallMode (wall_mode self))"
proof -
  note cs = calc_next_steps_Inr(1-3) [OF calc]
  show ?thesis
    using wm len row cs
    by (simp add: walk_step_def calc Let_def check_constraints_def add_rows_def)
qed

lemma generate_first_step:
  assumes "0 < step_number self"
    and "broadcast (start_x self) (number_of_walks self) = Inr rx"
    and "broadcast (start_y self) (number_of_walks self) = Inr ry"
    and "broadcast (start_z self) (number_of_walks self) = Inr rz"
  shows "generate_walk_coordinates self g =
     (case walk_step self 0
        (\<lparr>x = (zeros (step_number self + 1) (number_of_walks self))[0 := rx],
          y = (zeros (step_number self + 1) (number_of_walks self))[0 := ry],
          z = (zeros (step_number self + 1) (number_of_walks self))[0 := rz]\<rparr>, g) of
        Inl e \<Rightarrow> Inl e
      | Inr st \<Rightarrow> walk_steps self [Suc 0..<step_number self] st)"
  using assms by (simp add: generate_walk_coordinates_def upt_conv_Cons)

lemma init_generate_error:
  "generate_walk_coordinates (store_params args) g = Inl e \<Longrightarrow> random_walk_init args g = Inl e"
  by (simp add: random_walk_init_def Let_def)

text \<open>
  Claim C6, as amended. The constructor validates nothing by itself. When at least one
  step is generated (and the start positions fill a row), \<open>dimensions\<close> outside
  \<open>{1, 2, 3}\<close> raise the \<open>ValueError\<close> of \<open>calc_next_steps\<close> in the first step, whatever
  \<open>wall_mode\<close> is; with valid \<open>dimensions\<close>, a \<open>wall_mode\<close> other than \<open>'exclude'\<close> and
  \<open>'reflect'\<close> raises its \<open>ValueError\<close> in the first step, the step that reaches the
  branch, unless the sampling of that step has raised before.
\<close>

theorem invalid_parameters_raise_in_first_step:
  assumes "0 < step_number args"
    and "\<forall>l. start_x args = PerWalk l \<longrightarrow> length l = number_of_walks args"
    and "\<forall>l. start_y args = PerWalk l \<longrightarrow> length l = number_of_walks args"
    and "\<forall>l. start_z args = PerWalk l \<longrightarrow> length l = number_of_walks args"
  shows "(dimensions args \<noteq> 1 \<and> dimensions args \<noteq> 2 \<and> dimensions args \<noteq> 3 \<longrightarrow>
            random_walk_init args g = Inl (BadDimensions (dimensions args))) \<and>
         ((dimensions args = 1 \<or> dimensions args = 2 \<or> dimensions args = 3) \<and>
          wall_mode args \<noteq> ''exclude'' \<and> wall_mode args \<noteq> ''reflect'' \<longrightarrow>
            (case calc_next_steps (store_params args) (number_of_walks args) g of
               Inl e \<Rightarrow> random_walk_init args g = Inl e
             | Inr r \<Rightarrow> random_walk_init args g = Inl (BadWallMode (wall_mode args))))"
proof -
  let ?self = "store_params args"
  let ?n = "number_of_walks args" and ?N = "step_number args"
  let ?rx = "case start_x args of Scalar v \<Rightarrow> replicate ?n v | PerWalk l \<Rightarrow> l"
  let ?ry = "case start_y args of Scalar v \<Rightarrow> replicate ?n v | PerWalk l \<Rightarrow> l"
  let ?rz = "case start_z args of Scalar v \<Rightarrow> replicate ?n v | PerWalk l \<Rightarrow> l"
  let ?c0 = "\<lparr>x = (zeros (?N + 1) ?n)[0 := ?rx], y = (zeros (?N + 1) ?n)[0 := ?ry],
              z = (zeros (?N + 1) ?n)[0 := ?rz]\<rparr>"
  have b: "broadcast (start_x ?self) (number_of_walks ?self) = Inr ?rx"
    "broadcast (start_y ?self) (number_of_walks ?self) = Inr ?ry"
    "broadcast (start_z ?self) (number_of_walks ?self) = Inr ?rz"
    using broadcast_fits [OF assms(2)] broadcast_fits [OF assms(3)] broadcast_fits [OF assms(4)]
    by simp_all
  have N: "0 < step_number ?self" using assms(1) by simp
  have gen: "generate_walk_coordinates ?self g =
     (case walk_step ?self 0 (?c0, g) of
        Inl e \<Rightarrow> Inl e
      | Inr st \<Rightarrow> walk_steps ?self [Suc 0..<?N] st)"
    using generate_first_step [OF N b, of g, unfolded store_params_simps] .
  have first: "walk_step ?self 0 (?c0, g) = Inl e \<Longrightarrow> random_walk_init args g = Inl e" for e
    using gen by (intro init_generate_error) simp
  have l: "length ?rx = ?n" "length ?ry = ?n" "length ?rz = ?n"
    using broadcast_length b by (metis store_params_simps(2))+
  show ?thesis
  proof (intro conjI impI)
    assume "dimensions args \<noteq> 1 \<and> dimensions args \<noteq> 2 \<and> dimensions args \<noteq> 3"
    then have "walk_step ?self 0 (?c0, g) = Inl (BadDimensions (dimensions args))"
      using walk_step_bad_dimensions [of ?self 0 "(?c0, g)"] by simp
    then show "random_walk_init args g = Inl (BadDimensions (dimensions args))"
      by (rule first)
  next
    assume a: "(dimensions args = 1 \<or> dimensions args = 2 \<or> dimensions args = 3) \<and>
          wall_mode args \<noteq> ''exclude'' \<and> wall_mode args \<noteq> ''reflect''"
    show "case calc_next_steps ?self ?n g of
               Inl e \<Rightarrow> random_walk_init args g = Inl e
             | Inr r \<Rightarrow> random_walk_init args g = Inl (BadWallMode (wall_mode args))"
    proof (cases "calc_next_steps ?self ?n g")
      case (Inl e)
      then have "walk_step ?self 0 (?c0, g) = Inl e"
        by (simp add: walk_step_def)
      then show ?thesis using first Inl by simp
    next
      case (Inr r)
      obtain sx sy sz g1 where r: "r = ((sx, sy, sz), g1)" by (metis prod.collapse)
      have "walk_step ?self 0 (?c0, g) = Inl (BadWallMode (wall_mode ?self))"
        using a Inr l assms(1)
        by (intro walk_step_bad_wall_mode [where sx = sx and sy = sy and sz = sz and ?g1.0 = g1])
           (simp_all add: r zeros_def)
      then show ?thesis using first Inr by simp
    qed
  qed
qed

theorem invalid_parameters_raise_in_first_step_witness:
  "random_walk_init (default_args\<lparr>dimensions := 4\<rparr>) rng0 = Inl (BadDimensions 4) \<and>
   random_walk_init (default_args\<lparr>start_x := Scalar 3, wall_mode := ''bounce''\<rparr>) rng0
     = Inl (BadWallMode ''bounce'')"
proof -
  let ?a = "default_args\<lparr>dimensions := 4\<rparr>"
  let ?b = "default_args\<lparr>start_x := Scalar 3, wall_mode := ''bounce''\<rparr>"
  have a: "0 < step_number ?a"
    "\<forall>l. start_x ?a = PerWalk l \<longrightarrow> length l = number_of_walks ?a"
    "\<forall>l. start_y ?a = PerWalk l \<longrightarrow> length l = number_of_walks ?a"
    "\<forall>l. start_z ?a = PerWalk l \<longrightarrow> length l = number_of_walks ?a"
    by (simp_all add: default_args_def)
  have b: "0 < step_number ?b"
    "\<forall>l. start_x ?b = PerWalk l \<longrightarrow> length l = number_of_walks ?b"
    "\<forall>l. start_y ?b = PerWalk l \<longrightarrow> length l = number_of_walks ?b"
    "\<forall>l. start_z ?b = PerWalk l \<longrightarrow> length l = number_of_walks ?b"
    by (simp_all add: default_args_def)
  have "dimensions ?a \<noteq> 1 \<and> dimensions ?a \<noteq> 2 \<and> dimensions ?a \<noteq> 3"
    by (simp add: default_args_def)
  then have "random_walk_init ?a rng0 = Inl (BadDimensions (dimensions ?a))"
    using invalid_parameters_raise_in_first_step [OF a, of rng0] by blast
  then have 1: "random_walk_init ?a rng0 = Inl (BadDimensions 4)" by simp
  have "(dimensions ?b = 1 \<or> dimensions ?b = 2 \<or> dimensions ?b = 3) \<and>
        wall_mode ?b \<noteq> ''exclude'' \<and> wall_mode ?b \<noteq> ''reflect''"
    by (simp add: default_args_def)
  then have "case calc_next_steps (store_params ?b) (number_of_walks ?b) rng0 of
               Inl e \<Rightarrow> random_walk_init ?b rng0 = Inl e
             | Inr r \<Rightarrow> random_walk_init ?b rng0 = Inl (BadWallMode (wall_mode ?b))"
    using invalid_parameters_raise_in_first_step [OF b, of rng0] by blast
  moreover have "\<exists>r. calc_next_steps (store_params ?b) (number_of_walks ?b) rng0 = Inr r"
    by (simp add: default_args_def store_params_def calc_next_steps_def random_uniform_def)
  ultimately have 2: "random_walk_init ?b rng0 = Inl (BadWallMode ''bounce'')"
    by auto
  from 1 2 show ?thesis by blast
qed

text \<open>
  The claim as stated, for every configuration, fails when \<open>step_number\<close> is 0: the
  constructor returns the object, with \<open>dimensions = 7\<close> and \<open>wall_mode = 'bounce'\<close>.
\<close>

theorem no_step_no_validation_counterexample:
  "random_walk_init
     (default_args\<lparr>step_number := 0, start_x := Scalar 3, dimensions := 7,
                   wall_mode := ''bounce''\<rparr>) rng0
   = Inr (\<lparr>x = [[3]], y = [[0]], z = [[0]],
           params = default_args\<lparr>step_number := 0, start_x := Scalar 3, dimensions := 7,
                                  wall_mode := ''bounce''\<rparr>,
           end2end_real = [0], end2end = 0\<rparr>, rng0)"
  by (simp add: eval_defs)

subsection \<open>What the retry loop leaves alone\<close>









subsection \<open>The retry counter\<close>







subsection \<open>The end-to-end distances\<close>

lemma init_distances:
  assumes "random_walk_init args g = Inr (w, g')"
  shows "end2end_real w =
           map sqrt (add_rows (add_rows (sq_diff (x w ! 0) (last (x w)))
                                        (sq_diff (y w ! 0) (last (y w))))
                              (sq_diff (z w ! 0) (last (z w))))"
    and "end2end w = sqrt (mean (sq_diff (x w ! 0) (last (x w)))
                           + mean (sq_diff (y w ! 0) (last (y w)))
                           + mean (sq_diff (z w ! 0) (last (z w))))"
  using assms
  by (auto simp: random_walk_init_def Let_def split: sum.splits prod.splits)

lemma sq_diff_nth:
  "length a = n \<Longrightarrow> length b = n \<Longrightarrow> i < n \<Longrightarrow> sq_diff a b ! i = (a ! i - b ! i)\<^sup>2"
  by (simp add: sq_diff_def)

lemma length_sq_diff: "length a = n \<Longrightarrow> length b = n \<Longrightarrow> length (sq_diff a b) = n"
  by (simp add: sq_diff_def)

lemma mean_sq_diff:
  assumes "length a = n" and "length b = n"
  shows "mean (sq_diff a b) = (\<Sum>i<n. (a ! i - b ! i)\<^sup>2) / real n"
proof -
  have "sum_list (sq_diff a b) = (\<Sum>i = 0..<n. sq_diff a b ! i)"
    using length_sq_diff [OF assms] by (simp add: sum_list_sum_nth)
  also have "\<dots> = (\<Sum>i = 0..<n. (a ! i - b ! i)\<^sup>2)"
    using assms by (intro sum.cong) (simp_all add: sq_diff_nth)
  finally show ?thesis
    using length_sq_diff [OF assms] by (simp add: mean_def atLeast0LessThan)
qed

lemma last_row:
  assumes "well_shaped n (Suc N) c"
  shows "last (x c) = x c ! N" and "last (y c) = y c ! N" and "last (z c) = z c ! N"
proof -
  have *: "last rows = rows ! N" if "length rows = Suc N" for rows :: "real list list"
  proof -
    from that have "rows \<noteq> []" by auto
    then show ?thesis using that by (simp add: last_conv_nth)
  qed
  from assms show "last (x c) = x c ! N" and "last (y c) = y c ! N" and "last (z c) = z c ! N"
    by (simp_all add: well_shaped_def *)
qed

text \<open>
  Claim C5. After generation \<open>end2end_real\<close> has one entry per walk, the Euclidean
  distance between the walk's positions in row 0 and in the last row, and \<open>end2end\<close> is
  the square root of the sum, over the three axes, of the mean over the walks of the
  squared displacement on that axis. The two are different aggregations: there is a run
  where \<open>end2end\<close> is not the mean of \<open>end2end_real\<close>. (At least one walk is assumed: the
  mean of no walk is \<open>nan\<close> in numpy, which the real numbers do not have.)
\<close>

theorem end_to_end_distances:
  assumes "random_walk_init args g = Inr (w, g')" and "0 < number_of_walks args"
  shows "length (end2end_real w) = number_of_walks args \<and>
         (\<forall>i<number_of_walks args.
            end2end_real w ! i =
              sqrt ((x w ! 0 ! i - x w ! step_number args ! i)\<^sup>2
                    + (y w ! 0 ! i - y w ! step_number args ! i)\<^sup>2
                    + (z w ! 0 ! i - z w ! step_number args ! i)\<^sup>2)) \<and>
         end2end w =
           sqrt ((\<Sum>i<number_of_walks args. (x w ! 0 ! i - x w ! step_number args ! i)\<^sup>2)
                   / real (number_of_walks args)
                 + (\<Sum>i<number_of_walks args. (y w ! 0 ! i - y w ! step_number args ! i)\<^sup>2)
                   / real (number_of_walks args)
                 + (\<Sum>i<number_of_walks args. (z w ! 0 ! i - z w ! step_number args ! i)\<^sup>2)
                   / real (number_of_walks args)) \<and>
         (\<exists>a r v r'. random_walk_init a r = Inr (v, r') \<and>
            end2end v \<noteq> sum_list (end2end_real v) / real (length (end2end_real v)))"
proof -
  let ?n = "number_of_walks args" and ?N = "step_number args"
  from assms(1) obtain c where
    gen: "generate_walk_coordinates (store_params args) g = Inr (c, g')"
    and xs: "x w = x c" "y w = y c" "z w = z c"
    by (rule init_elim)
  have ws: "well_shaped ?n (Suc ?N) c"
    using rows_stepped(5) [OF gen] by simp
  note lr = last_row [OF ws]
  have len: "length (x c ! 0) = ?n" "length (y c ! 0) = ?n" "length (z c ! 0) = ?n"
    "length (x c ! ?N) = ?n" "length (y c ! ?N) = ?n" "length (z c ! ?N) = ?n"
    using ws by (simp_all add: well_shaped_def)
  note d = init_distances [OF assms(1), unfolded xs lr]
  have 1: "length (end2end_real w) = ?n"
    using len by (simp add: d(1) add_rows_def sq_diff_def)
  have 2: "\<forall>i<?n. end2end_real w ! i =
              sqrt ((x w ! 0 ! i - x w ! ?N ! i)\<^sup>2 + (y w ! 0 ! i - y w ! ?N ! i)\<^sup>2
                    + (z w ! 0 ! i - z w ! ?N ! i)\<^sup>2)"
    using len by (simp add: d(1) xs add_rows_def sq_diff_def)
  have 3: "end2end w =
           sqrt ((\<Sum>i<?n. (x w ! 0 ! i - x w ! ?N ! i)\<^sup>2) / real ?n
                 + (\<Sum>i<?n. (y w ! 0 ! i - y w ! ?N ! i)\<^sup>2) / real ?n
                 + (\<Sum>i<?n. (z w ! 0 ! i - z w ! ?N ! i)\<^sup>2) / real ?n)"
    unfolding d(2) xs
    by (simp only: mean_sq_diff [OF len(1) len(4)] mean_sq_diff [OF len(2) len(5)]
                   mean_sq_diff [OF len(3) len(6)])
  have "\<exists>v r'. random_walk_init
          (default_args\<lparr>step_number := Suc (Suc 0), number_of_walks := Suc (Suc 0),
                        dimensions := 1\<rparr>) rng2 = Inr (v, r') \<and>
          end2end_real v = [2, 0] \<and> end2end v = sqrt 2"
    by (simp add: eval_defs rng2_def)
  then obtain v r' where "random_walk_init
          (default_args\<lparr>step_number := Suc (Suc 0), number_of_walks := Suc (Suc 0),
                        dimensions := 1\<rparr>) rng2 = Inr (v, r')"
    and "end2end_real v = [2, 0]" and "end2end v = sqrt 2"
    by blast
  moreover from this have "end2end v \<noteq> sum_list (end2end_real v) / real (length (end2end_real v))"
    by simp
  ultimately have 4: "\<exists>a r v r'. random_walk_init a r = Inr (v, r') \<and>
            end2end v \<noteq> sum_list (end2end_real v) / real (length (end2end_real v))"
    by blast
  from 1 2 3 4 show ?thesis by (intro conjI)
qed

theorem end_to_end_distances_witness:
  "\<exists>v r'. random_walk_init
            (default_args\<lparr>step_number := Suc (Suc 0), number_of_walks := Suc (Suc 0),
                          dimensions := 1\<rparr>) rng2 = Inr (v, r') \<and>
          x v = [[0, 0], [1, 1], [2, 0]] \<and> end2end_real v = [2, 0] \<and> end2end v = sqrt 2 \<and>
          length (end2end_real v) = 2 \<and>
          end2end_real v ! 0 = sqrt ((x v ! 0 ! 0 - x v ! 2 ! 0)\<^sup>2 + (y v ! 0 ! 0 - y v ! 2 ! 0)\<^sup>2
                                     + (z v ! 0 ! 0 - z v ! 2 ! 0)\<^sup>2) \<and>
          end2end v \<noteq> sum_list (end2end_real v) / real (length (end2end_real v))"
proof -
  let ?a = "default_args\<lparr>step_number := Suc (Suc 0), number_of_walks := Suc (Suc 0),
                          dimensions := 1\<rparr>"
  have "\<exists>v r'. random_walk_init ?a rng2 = Inr (v, r') \<and> x v = [[0, 0], [1, 1], [2, 0]] \<and>
          end2end_real v = [2, 0] \<and> end2end v = sqrt 2"
    by (simp add: eval_defs rng2_def)
  then obtain v r' where run: "random_walk_init ?a rng2 = Inr (v, r')"
    and v: "x v = [[0, 0], [1, 1], [2, 0]]" "end2end_real v = [2, 0]" "end2end v = sqrt 2"
    by blast
  have n: "0 < number_of_walks ?a" by simp
  note t = end_to_end_distances [OF run n]
  from t have "length (end2end_real v) = number_of_walks ?a" by blast
  then have 1: "length (end2end_real v) = 2" by simp
  from t have "\<forall>i<number_of_walks ?a.
            end2end_real v ! i =
              sqrt ((x v ! 0 ! i - x v ! step_number ?a ! i)\<^sup>2
                    + (y v ! 0 ! i - y v ! step_number ?a ! i)\<^sup>2
                    + (z v ! 0 ! i - z v ! step_number ?a ! i)\<^sup>2)"
    by blast
  then have 2: "end2end_real v ! 0 = sqrt ((x v ! 0 ! 0 - x v ! 2 ! 0)\<^sup>2
       + (y v ! 0 ! 0 - y v ! 2 ! 0)\<^sup>2 + (z v ! 0 ! 0 - z v ! 2 ! 0)\<^sup>2)"
    by (simp add: numeral_2_eq_2)
  have 3: "end2end v \<noteq> sum_list (end2end_real v) / real (length (end2end_real v))"
    by (simp add: v)
  from run v 1 2 3 show ?thesis by blast
qed

end
